theory Spec2Isabelle
  imports Main
begin

section \<open>Block model (types.ts)\<close>

text \<open>
  A JavaScript string is a sequence of UTF-16 code units. A code unit is modelled as a
  natural number; no arithmetic in this development leaves the range of a code unit.
  \<open>js\<close> turns a HOL string literal into the code units of the same ASCII text.
\<close>

type_synonym codeunit = nat
type_synonym jsstring = "codeunit list"

definition js :: "string \<Rightarrow> jsstring" where
  "js s = map of_char s"

datatype BlockType = TText | TDivider | TEmbed | TGroup | TQuestion

datatype QuestionType = MultipleChoice | OpenAnswer | ClozeText | ClozeDropdown | DragInline

text \<open>
  An optional property \<open>f?: T\<close> is \<open>T option\<close> (\<open>None\<close> is \<open>undefined\<close>);
  \<open>T | null\<close> is \<open>T nullable\<close>.
\<close>

datatype 'a nullable = Null | Value 'a

datatype answer = Single jsstring | Multiple "jsstring list"

record QuestionFields =
  qType :: "QuestionType option"
  prompt :: jsstring
  listItems :: "jsstring list option"
  image :: "jsstring nullable option"
  description :: "jsstring nullable option"
  options :: "jsstring list option"
  multiSelect :: "bool option"
  correctAnswer :: "answer option"

text \<open>
  The first argument of every constructor is the \<open>id\<close>. \<open>TextBlock id content\<close>,
  \<open>EmbedBlock id url title\<close>, \<open>QuestionBlock id fields\<close>,
  \<open>GroupBlock id title children\<close>. The field \<open>qType\<close> is declared as required,
  but \<open>createBlock\<close> stores the argument it was given, which may be \<open>undefined\<close>.
\<close>

datatype Block =
    TextBlock jsstring jsstring
  | DividerBlock jsstring
  | EmbedBlock jsstring jsstring "jsstring option"
  | QuestionBlock jsstring QuestionFields
  | GroupBlock jsstring "jsstring option" "Block list"

fun block_id :: "Block \<Rightarrow> jsstring" where
  "block_id (TextBlock i _) = i"
| "block_id (DividerBlock i) = i"
| "block_id (EmbedBlock i _ _) = i"
| "block_id (QuestionBlock i _) = i"
| "block_id (GroupBlock i _ _) = i"

fun block_type :: "Block \<Rightarrow> BlockType" where
  "block_type (TextBlock _ _) = TText"
| "block_type (DividerBlock _) = TDivider"
| "block_type (EmbedBlock _ _ _) = TEmbed"
| "block_type (QuestionBlock _ _) = TQuestion"
| "block_type (GroupBlock _ _ _) = TGroup"

text \<open>The \<open>children\<close> of a block; a block that is not a group has none.\<close>

fun childrenOf :: "Block \<Rightarrow> Block list" where
  "childrenOf (GroupBlock i t ch) = ch"
| "childrenOf _ = []"

datatype Font = Sans | Serif | Mono

record DesignSettings =
  accentColor :: jsstring
  font :: Font

record WorksheetData =
  ws_title :: jsstring
  ws_description :: jsstring
  ws_blocks :: "Block list"
  ws_design :: "DesignSettings option"

section \<open>JavaScript array helpers\<close>

text \<open>
  \<open>Array.prototype.findIndex\<close>: the index of the first element satisfying the
  predicate, \<open>-1\<close> when there is none.
\<close>

fun findIndex :: "('a \<Rightarrow> bool) \<Rightarrow> 'a list \<Rightarrow> int" where
  "findIndex P [] = -1"
| "findIndex P (x # xs) =
     (if P x then 0
      else (let r = findIndex P xs in if r = -1 then -1 else r + 1))"

text \<open>
  \<open>xs.splice(start, 0, x)\<close> and \<open>xs.splice(start, 1)\<close>, returning the array
  after the call. A negative \<open>start\<close> counts from the end; the start position is
  clamped to \<open>0 .. length\<close>.
\<close>

definition splice_start :: "'a list \<Rightarrow> int \<Rightarrow> nat" where
  "splice_start xs start =
     (let len = int (length xs)
      in nat (if start < 0 then max (len + start) 0 else min start len))"

definition splice_insert :: "'a list \<Rightarrow> int \<Rightarrow> 'a \<Rightarrow> 'a list" where
  "splice_insert xs start x =
     (let k = splice_start xs start in take k xs @ [x] @ drop k xs)"

definition splice_remove :: "'a list \<Rightarrow> int \<Rightarrow> 'a list" where
  "splice_remove xs start =
     (let k = splice_start xs start in take k xs @ drop (Suc k) xs)"

text \<open>
  The truth value JavaScript gives an optional string in a condition: \<open>undefined\<close>
  and the empty string are falsy.
\<close>

fun truthy :: "jsstring option \<Rightarrow> bool" where
  "truthy None = False"
| "truthy (Some s) = (s \<noteq> [])"

section \<open>Tree helpers (QuestionBoard.tsx)\<close>

function removeBlockRecursive :: "Block list \<Rightarrow> jsstring \<Rightarrow> Block list" where
  "removeBlockRecursive blocks ident =
     map (\<lambda>b. case b of
                GroupBlock i t ch \<Rightarrow> GroupBlock i t (removeBlockRecursive ch ident)
              | _ \<Rightarrow> b)
         (filter (\<lambda>b. block_id b \<noteq> ident) blocks)"
  by pat_completeness auto
termination
proof (relation "measure (\<lambda>(blocks, ident). size_list size blocks)", goal_cases)
  case 1
  show ?case by simp
next
  case (2 blocks ident b i t ch)
  from 2 have "b \<in> set blocks" by simp
  then have "size b \<le> size_list size blocks"
    by (simp add: size_list_estimation')
  with 2 show ?case by simp
qed

declare removeBlockRecursive.simps [simp del]

fun findBlock :: "Block list \<Rightarrow> jsstring \<Rightarrow> Block option" where
  "findBlock [] ident = None"
| "findBlock (b # bs) ident =
     (if block_id b = ident then Some b
      else (case b of
              GroupBlock i t ch \<Rightarrow>
                (case findBlock ch ident of
                   Some found \<Rightarrow> Some found
                 | None \<Rightarrow> findBlock bs ident)
            | _ \<Rightarrow> findBlock bs ident))"

definition safeIndex :: "int \<Rightarrow> 'a list \<Rightarrow> int" where
  "safeIndex index xs = max 0 (min index (int (length xs)))"

function insertBlockAt :: "Block list \<Rightarrow> jsstring option \<Rightarrow> int \<Rightarrow> Block \<Rightarrow> Block list" where
  "insertBlockAt blocks parentId index block =
     (if \<not> truthy parentId
      then splice_insert blocks (safeIndex index blocks) block
      else map (\<lambda>b. case b of
                  GroupBlock i t ch \<Rightarrow>
                    (if Some i = parentId
                     then GroupBlock i t (splice_insert ch (safeIndex index ch) block)
                     else GroupBlock i t (insertBlockAt ch parentId index block))
                | _ \<Rightarrow> b)
               blocks)"
  by pat_completeness auto
termination
proof (relation "measure (\<lambda>(blocks, parentId, index, block). size_list size blocks)", goal_cases)
  case 1
  show ?case by simp
next
  case (2 blocks parentId index block b i t ch)
  then have "size b \<le> size_list size blocks"
    by (simp add: size_list_estimation')
  with 2 show ?case by simp
qed

declare insertBlockAt.simps [simp del]

fun findIndexInParent :: "jsstring \<Rightarrow> Block list \<Rightarrow> jsstring option \<Rightarrow> int"
  and findIndexInParent_loop :: "jsstring \<Rightarrow> Block list \<Rightarrow> jsstring option \<Rightarrow> int" where
  "findIndexInParent targetId blocks pId =
     (if \<not> truthy pId
      then findIndex (\<lambda>b. block_id b = targetId) blocks
      else findIndexInParent_loop targetId blocks pId)"
| "findIndexInParent_loop targetId [] pId = -1"
| "findIndexInParent_loop targetId (b # bs) pId =
     (case b of
        GroupBlock i t ch \<Rightarrow>
          (if Some i = pId
           then findIndex (\<lambda>child. block_id child = targetId) ch
           else (let res = findIndexInParent targetId ch pId
                 in if res \<noteq> -1 then res else findIndexInParent_loop targetId bs pId))
      | _ \<Rightarrow> findIndexInParent_loop targetId bs pId)"

section \<open>Block factory and duplication (helpers.ts)\<close>

text \<open>
  \<open>generateId\<close> reads \<open>Math.random\<close>. The identifier it returns is an input of the
  model: \<open>createBlock\<close> takes the identifier of its one call, and
  \<open>duplicateBlockHelper\<close> takes the sequence \<open>gen\<close> of the values returned by
  successive calls together with the number \<open>n\<close> of calls made so far.
\<close>

definition defaultPrompt :: "QuestionType option \<Rightarrow> jsstring" where
  "defaultPrompt qt =
     (case qt of
        Some MultipleChoice \<Rightarrow> js ''Select the correct option''
      | Some OpenAnswer \<Rightarrow> js ''Type your answer below''
      | Some ClozeText \<Rightarrow> js ''Fill in the missing words''
      | Some ClozeDropdown \<Rightarrow> js ''Select the correct options''
      | Some DragInline \<Rightarrow> js ''Drag and drop the words''
      | None \<Rightarrow> js ''New Question'')"

definition createBlock :: "jsstring \<Rightarrow> BlockType \<Rightarrow> QuestionType option \<Rightarrow> Block" where
  "createBlock ident type qt =
     (if type = TQuestion then
        QuestionBlock ident
          \<lparr> qType = qt,
            prompt = defaultPrompt qt,
            listItems =
              (if qt = Some ClozeText then Some [js ''The capital of France is [Paris].'']
               else if qt = Some ClozeDropdown then Some [js ''The sky is [blue|green|red].'']
               else if qt = Some DragInline then Some [js ''The [cat] sat on the [mat].'']
               else None),
            image = None,
            description = None,
            options =
              (if qt = Some MultipleChoice then Some [js ''Option 1'', js ''Option 2'']
               else None),
            multiSelect = None,
            correctAnswer = None \<rparr>
      else if type = TText then
        TextBlock ident
          (js ''### Instructions'' @ [10, 10] @ js ''Enter your text instructions here...'')
      else if type = TGroup then GroupBlock ident (Some (js ''New Group'')) []
      else if type = TEmbed then EmbedBlock ident [] (Some (js ''Video Resource''))
      else DividerBlock ident)"

fun duplicateBlockHelper :: "(nat \<Rightarrow> jsstring) \<Rightarrow> Block \<Rightarrow> nat \<Rightarrow> Block \<times> nat"
  and duplicateChildren :: "(nat \<Rightarrow> jsstring) \<Rightarrow> Block list \<Rightarrow> nat \<Rightarrow> Block list \<times> nat" where
  "duplicateBlockHelper gen (GroupBlock i t ch) n =
     (let newId = gen n;
          (ch', n') = duplicateChildren gen ch (Suc n)
      in (GroupBlock newId t ch', n'))"
| "duplicateBlockHelper gen (TextBlock i c) n = (TextBlock (gen n) c, Suc n)"
| "duplicateBlockHelper gen (DividerBlock i) n = (DividerBlock (gen n), Suc n)"
| "duplicateBlockHelper gen (EmbedBlock i u t) n = (EmbedBlock (gen n) u t, Suc n)"
| "duplicateBlockHelper gen (QuestionBlock i q) n = (QuestionBlock (gen n) q, Suc n)"
| "duplicateChildren gen [] n = ([], n)"
| "duplicateChildren gen (b # bs) n =
     (let (b', n1) = duplicateBlockHelper gen b n;
          (bs', n2) = duplicateChildren gen bs n1
      in (b' # bs', n2))"

section \<open>The editor (Builder in QuestionBoard.tsx)\<close>

text \<open>The document the editor starts with.\<close>

definition initialData :: WorksheetData where
  "initialData =
     \<lparr> ws_title = js ''Untitled Worksheet'',
       ws_description = js ''Fill out the questions below.'',
       ws_blocks = [],
       ws_design = Some \<lparr> accentColor = js ''#6366f1'', font = Sans \<rparr> \<rparr>"

function updateRecursive :: "jsstring \<Rightarrow> Block \<Rightarrow> Block list \<Rightarrow> Block list" where
  "updateRecursive ident newData blocks =
     map (\<lambda>b. if block_id b = ident then newData
              else (case b of
                      GroupBlock i t ch \<Rightarrow> GroupBlock i t (updateRecursive ident newData ch)
                    | _ \<Rightarrow> b))
         blocks"
  by pat_completeness auto
termination
proof (relation "measure (\<lambda>(ident, newData, blocks). size_list size blocks)", goal_cases)
  case 1
  show ?case by simp
next
  case (2 ident newData blocks b i t ch)
  then have "size b \<le> size_list size blocks"
    by (simp add: size_list_estimation')
  with 2 show ?case by simp
qed

declare updateRecursive.simps [simp del]

definition updateBlock :: "jsstring \<Rightarrow> Block \<Rightarrow> WorksheetData \<Rightarrow> WorksheetData" where
  "updateBlock ident newData prev = prev\<lparr>ws_blocks := updateRecursive ident newData (ws_blocks prev)\<rparr>"

definition removeBlock :: "jsstring \<Rightarrow> WorksheetData \<Rightarrow> WorksheetData" where
  "removeBlock ident prev = prev\<lparr>ws_blocks := removeBlockRecursive (ws_blocks prev) ident\<rparr>"

function insertAfterRecursive :: "Block \<Rightarrow> Block \<Rightarrow> Block list \<Rightarrow> Block list" where
  "insertAfterRecursive block newBlock blocks =
     (let idx = findIndex (\<lambda>b. block_id b = block_id block) blocks
      in if idx \<noteq> -1 then splice_insert blocks (idx + 1) newBlock
         else map (\<lambda>b. case b of
                      GroupBlock i t ch \<Rightarrow> GroupBlock i t (insertAfterRecursive block newBlock ch)
                    | _ \<Rightarrow> b)
                  blocks)"
  by pat_completeness auto
termination
proof (relation "measure (\<lambda>(block, newBlock, blocks). size_list size blocks)", goal_cases)
  case 1
  show ?case by simp
next
  case (2 block newBlock blocks idx b i t ch)
  then have "size b \<le> size_list size blocks"
    by (simp add: size_list_estimation')
  with 2 show ?case by simp
qed

declare insertAfterRecursive.simps [simp del]

definition duplicateBlock :: "(nat \<Rightarrow> jsstring) \<Rightarrow> nat \<Rightarrow> Block \<Rightarrow> WorksheetData \<Rightarrow> WorksheetData" where
  "duplicateBlock gen n block prev =
     (let newBlock = fst (duplicateBlockHelper gen block n)
      in prev\<lparr>ws_blocks := insertAfterRecursive block newBlock (ws_blocks prev)\<rparr>)"

definition addBlock :: "jsstring \<Rightarrow> BlockType \<Rightarrow> QuestionType option \<Rightarrow> WorksheetData \<Rightarrow> WorksheetData" where
  "addBlock newId type qt prev = prev\<lparr>ws_blocks := ws_blocks prev @ [createBlock newId type qt]\<rparr>"

subsection \<open>Drag and drop\<close>

datatype DragItemType = DragBlock | DragNewBlock

record Payload =
  payload_type :: BlockType
  payload_qType :: "QuestionType option"

record DragItem =
  item_id :: "jsstring option"
  item_index :: "int option"
  item_parentId :: "jsstring option"
  item_type :: DragItemType
  payload :: "Payload option"

text \<open>
  The first half of the state update of \<open>handleDragDrop\<close>: the block that moves and the
  list it is taken out of, \<open>None\<close> where the source returns \<open>prev\<close>. An item without
  an \<open>id\<close> matches no block, so \<open>findBlock\<close> finds nothing.
\<close>

definition movingBlockOf :: "DragItem \<Rightarrow> jsstring \<Rightarrow> Block list \<Rightarrow> (Block \<times> Block list) option" where
  "movingBlockOf item newId currentBlocks =
     (if item_type item = DragNewBlock then
        (case payload item of
           None \<Rightarrow> None
         | Some p \<Rightarrow> Some (createBlock newId (payload_type p) (payload_qType p), currentBlocks))
      else
        (case item_id item of
           None \<Rightarrow> None
         | Some ident \<Rightarrow>
             (case findBlock currentBlocks ident of
                None \<Rightarrow> None
              | Some found \<Rightarrow> Some (found, removeBlockRecursive currentBlocks ident))))"

text \<open>The index computation between the divider guard and the call of \<open>insertBlockAt\<close>.\<close>

definition finalIndexOf :: "jsstring option \<Rightarrow> jsstring option \<Rightarrow> int option \<Rightarrow> Block list \<Rightarrow> int" where
  "finalIndexOf targetId targetParentId targetIndex currentBlocks =
     (let finalIndex =
            (case targetId of
               Some tid \<Rightarrow>
                 (if tid \<noteq> [] \<and> targetIndex = None
                  then (let idx = findIndexInParent tid currentBlocks targetParentId
                        in if idx \<noteq> -1 then Some (idx + 1) else targetIndex)
                  else targetIndex)
             | None \<Rightarrow> targetIndex)
      in (case finalIndex of None \<Rightarrow> -1 | Some i \<Rightarrow> i))"

definition handleDragDrop ::
  "DragItem \<Rightarrow> jsstring option \<Rightarrow> jsstring option \<Rightarrow> int option \<Rightarrow> jsstring \<Rightarrow> WorksheetData \<Rightarrow> WorksheetData" where
  "handleDragDrop item targetId targetParentId targetIndex newId prev =
     (case movingBlockOf item newId (ws_blocks prev) of
        None \<Rightarrow> prev
      | Some (movingBlock, currentBlocks) \<Rightarrow>
          (if block_type movingBlock = TDivider \<and> truthy targetParentId then prev
           else (let finalIndex = finalIndexOf targetId targetParentId targetIndex currentBlocks;
                     finalBlocks = insertBlockAt currentBlocks targetParentId finalIndex movingBlock
                 in prev\<lparr>ws_blocks := finalBlocks\<rparr>)))"

subsection \<open>Segmentation (also in components/Answer.tsx)\<close>

text \<open>
  The \<open>forEach\<close> body of \<open>segments\<close>, on the pair of the two mutable variables
  \<open>(segs, currentSegment)\<close>.
\<close>

fun segments_step :: "Block \<Rightarrow> Block list list \<times> Block list \<Rightarrow> Block list list \<times> Block list" where
  "segments_step block (segs, currentSegment) =
     (if block_type block = TDivider
      then (segs @ [currentSegment] @ [[block]], [])
      else (segs, currentSegment @ [block]))"

definition segments :: "Block list \<Rightarrow> Block list list" where
  "segments blocks =
     (case fold segments_step blocks ([], []) of
        (segs, currentSegment) \<Rightarrow> segs @ [currentSegment])"

section \<open>Drag sources and drop zones (components/EditorBlockWrapper.tsx, components/UIComponents.tsx)\<close>

text \<open>
  The drag data a block's handle stores (\<open>onBadgeDragStart\<close>) and the drag data a palette
  button stores (\<open>handleDragStart\<close> of \<open>TooltipButton\<close>).
\<close>

definition onBadgeDragStart :: "Block \<Rightarrow> int \<Rightarrow> jsstring option \<Rightarrow> DragItem" where
  "onBadgeDragStart block index parentId =
     \<lparr> item_id = Some (block_id block), item_index = Some index, item_parentId = parentId,
       item_type = DragBlock, payload = None \<rparr>"

definition handleDragStart :: "BlockType \<Rightarrow> QuestionType option \<Rightarrow> DragItem" where
  "handleDragStart type qt =
     \<lparr> item_id = None, item_index = None, item_parentId = None, item_type = DragNewBlock,
       payload = Some \<lparr> payload_type = type, payload_qType = qt \<rparr> \<rparr>"

text \<open>
  \<open>canDropInGroup\<close> gates the drop zone drawn at the bottom of a group: \<open>draggedType\<close>
  is the type recorded when the drag started, \<open>depth\<close> the nesting depth of the group.
\<close>

definition canDropInGroup :: "BlockType option \<Rightarrow> nat \<Rightarrow> bool" where
  "canDropInGroup draggedType depth =
     (let isGroupDrag = (draggedType = Some TGroup);
          isDividerDrag = (draggedType = Some TDivider);
          isMaxDepth = (depth \<ge> 1)
      in \<not> (isGroupDrag \<and> isMaxDepth) \<and> \<not> isDividerDrag)"

text \<open>
  \<open>onDrop\<close> of a block's wrapper: the pair \<open>(targetParentId, targetIndex)\<close> it passes to
  \<open>handleDrop\<close>, with \<open>targetId\<close> undefined. The pointer position enters through three
  tests: \<open>isTop\<close> and \<open>isBottom\<close> (within 20 pixels of the upper or lower edge) and
  \<open>inUpper80\<close> (less than 80 pixels below the upper edge). The dragged type is not
  consulted.
\<close>

definition onDrop :: "Block \<Rightarrow> int \<Rightarrow> jsstring option \<Rightarrow> nat \<Rightarrow> bool \<Rightarrow> bool \<Rightarrow> bool \<Rightarrow> jsstring option \<times> int" where
  "onDrop block index parentId depth isTop isBottom inUpper80 =
     (if block_type block = TGroup \<and> \<not> isTop \<and> \<not> isBottom \<and> inUpper80 \<and> depth < 1
      then (Some (block_id block), int (length (childrenOf block)))
      else (parentId, if isTop then index else index + 1))"

section \<open>The older editor (index.tsx)\<close>

text \<open>
  index.tsx holds an earlier copy of the editor, with its own \<open>handleDragDrop\<close>. It
  looks the dragged block up through \<open>item.parentId\<close>, in the root list or in the
  children of a root group, and remembers the index it had there. Reading
  \<open>children\<close> of a block that is not a group throws a \<open>TypeError\<close>, which is the
  \<open>Inl\<close> result. The block a palette item creates comes from the file's own
  \<open>createBlock\<close> and is the parameter \<open>created\<close>.

  \<open>index_takeOut\<close> is the first half of the state update: the moving block, its original
  index and the list without it (\<open>None\<close> where the source returns \<open>prev\<close>);
  \<open>index_insertIdx\<close> is the computation of \<open>insertIdx\<close>, the same in both branches up
  to the test whether source and destination are the same list.
\<close>

datatype js_error = TypeError

definition index_takeOut ::
  "DragItem \<Rightarrow> Block \<Rightarrow> Block list \<Rightarrow> js_error + (Block \<times> int \<times> Block list) option" where
  "index_takeOut item created newBlocks =
     (if item_type item = DragNewBlock then
        (case payload item of
           None \<Rightarrow> Inr None
         | Some p \<Rightarrow> Inr (Some (created, - 1, newBlocks)))
      else if \<not> truthy (item_parentId item) then
        (let originalIndex = findIndex (\<lambda>b. Some (block_id b) = item_id item) newBlocks
         in if originalIndex = - 1 then Inr None
            else Inr (Some (newBlocks ! nat originalIndex, originalIndex,
                            splice_remove newBlocks originalIndex)))
      else
        (let parentIdx = findIndex (\<lambda>b. Some (block_id b) = item_parentId item) newBlocks
         in if parentIdx = - 1 then Inr None
            else (case newBlocks ! nat parentIdx of
                    GroupBlock i t ch \<Rightarrow>
                      (let originalIndex = findIndex (\<lambda>b. Some (block_id b) = item_id item) ch
                       in if originalIndex = - 1 then Inr None
                          else Inr (Some (ch ! nat originalIndex, originalIndex,
                                 newBlocks[nat parentIdx := GroupBlock i t (splice_remove ch originalIndex)])))
                  | _ \<Rightarrow> Inl TypeError)))"

definition index_insertIdx ::
  "DragItem \<Rightarrow> bool \<Rightarrow> jsstring option \<Rightarrow> int option \<Rightarrow> int \<Rightarrow> Block list \<Rightarrow> int" where
  "index_insertIdx item sameList targetId targetIndex originalIndex xs =
     (let insertIdx = (case targetIndex of Some i \<Rightarrow> i | None \<Rightarrow> int (length xs));
          insertIdx =
            (if item_type item \<noteq> DragNewBlock \<and> sameList \<and> originalIndex \<noteq> - 1
                \<and> originalIndex < insertIdx
             then insertIdx - 1 else insertIdx)
      in (case targetId of
            Some tid \<Rightarrow>
              (if tid \<noteq> [] \<and> targetIndex = None
               then (let tIdx = findIndex (\<lambda>b. block_id b = tid) xs
                     in if tIdx \<noteq> - 1 then tIdx + 1 else insertIdx)
               else insertIdx)
          | None \<Rightarrow> insertIdx))"

definition index_handleDragDrop ::
  "DragItem \<Rightarrow> jsstring option \<Rightarrow> jsstring option \<Rightarrow> int option \<Rightarrow> Block \<Rightarrow> WorksheetData
     \<Rightarrow> js_error + WorksheetData" where
  "index_handleDragDrop item targetId targetParentId targetIndex created prev =
     (case index_takeOut item created (ws_blocks prev) of
        Inl e \<Rightarrow> Inl e
      | Inr None \<Rightarrow> Inr prev
      | Inr (Some (movingBlock, originalIndex, newBlocks)) \<Rightarrow>
          (if \<not> truthy targetParentId then
             (let insertIdx = index_insertIdx item (\<not> truthy (item_parentId item))
                                targetId targetIndex originalIndex newBlocks
              in Inr (prev\<lparr>ws_blocks := splice_insert newBlocks insertIdx movingBlock\<rparr>))
           else
             (let parentIdx = findIndex (\<lambda>b. Some (block_id b) = targetParentId) newBlocks
              in if parentIdx \<noteq> - 1 then
                   (case newBlocks ! nat parentIdx of
                      GroupBlock i t ch \<Rightarrow>
                        (let insertIdx = index_insertIdx item (item_parentId item = targetParentId)
                                           targetId targetIndex originalIndex ch
                         in Inr (prev\<lparr>ws_blocks :=
                              newBlocks[nat parentIdx := GroupBlock i t (splice_insert ch insertIdx movingBlock)]\<rparr>))
                    | _ \<Rightarrow> Inl TypeError)
                 else Inr (prev\<lparr>ws_blocks := newBlocks\<rparr>))))"

section \<open>Platform functions used by the codec\<close>

text \<open>
  \<open>encodeState\<close> and \<open>decodeState\<close> are compositions of functions of the JavaScript
  platform: \<open>btoa\<close>, \<open>atob\<close>, \<open>JSON.stringify\<close>, \<open>JSON.parse\<close> and
  \<open>String.prototype.replace\<close>. They are not code of the repository and are written here
  after the standards that define them. A call that throws returns \<open>None\<close>.
\<close>

subsection \<open>btoa and atob\<close>

text \<open>
  \<open>btoa\<close> throws on a code unit above 255 and otherwise encodes the code units as bytes
  in base64 with padding. \<open>atob\<close> is the forgiving base64 decoding of the HTML
  standard: ASCII whitespace is removed, one or two padding characters are removed when the
  length is a multiple of four, a length of 1 modulo 4 or a character outside the alphabet
  fails, and left-over bits are discarded.
\<close>

definition b64char :: "nat \<Rightarrow> codeunit" where
  "b64char v =
     (if v < 26 then 65 + v
      else if v < 52 then 97 + (v - 26)
      else if v < 62 then 48 + (v - 52)
      else if v = 62 then 43 else 47)"

definition b64value :: "codeunit \<Rightarrow> nat option" where
  "b64value c =
     (if 65 \<le> c \<and> c \<le> 90 then Some (c - 65)
      else if 97 \<le> c \<and> c \<le> 122 then Some (c - 97 + 26)
      else if 48 \<le> c \<and> c \<le> 57 then Some (c - 48 + 52)
      else if c = 43 then Some 62
      else if c = 47 then Some 63
      else None)"

fun b64encode :: "nat list \<Rightarrow> jsstring" where
  "b64encode (a # b # c # rest) =
     [b64char (a div 4), b64char ((a mod 4) * 16 + b div 16),
      b64char ((b mod 16) * 4 + c div 64), b64char (c mod 64)] @ b64encode rest"
| "b64encode [a, b] =
     [b64char (a div 4), b64char ((a mod 4) * 16 + b div 16), b64char ((b mod 16) * 4), 61]"
| "b64encode [a] = [b64char (a div 4), b64char ((a mod 4) * 16), 61, 61]"
| "b64encode [] = []"

definition btoa :: "jsstring \<Rightarrow> jsstring option" where
  "btoa s = (if list_all (\<lambda>c. c < 256) s then Some (b64encode s) else None)"

definition isAsciiWhitespace :: "codeunit \<Rightarrow> bool" where
  "isAsciiWhitespace c \<longleftrightarrow> c = 9 \<or> c = 10 \<or> c = 12 \<or> c = 13 \<or> c = 32"

definition stripPadding :: "jsstring \<Rightarrow> jsstring" where
  "stripPadding d =
     (let r = rev d
      in if take 2 r = [61, 61] then rev (drop 2 r)
         else if take 1 r = [61] then rev (drop 1 r)
         else d)"

fun b64decode :: "nat list \<Rightarrow> nat list" where
  "b64decode (v1 # v2 # v3 # v4 # rest) =
     [v1 * 4 + v2 div 16, (v2 mod 16) * 16 + v3 div 4, (v3 mod 4) * 64 + v4] @ b64decode rest"
| "b64decode [v1, v2, v3] = [v1 * 4 + v2 div 16, (v2 mod 16) * 16 + v3 div 4]"
| "b64decode [v1, v2] = [v1 * 4 + v2 div 16]"
| "b64decode [v1] = []"
| "b64decode [] = []"

definition atob :: "jsstring \<Rightarrow> jsstring option" where
  "atob s =
     (let d = filter (\<lambda>c. \<not> isAsciiWhitespace c) s;
          d = (if length d mod 4 = 0 then stripPadding d else d)
      in if length d mod 4 = 1 then None
         else (case those (map b64value d) of
                 None \<Rightarrow> None
               | Some vs \<Rightarrow> Some (b64decode vs)))"


subsection \<open>JSON.stringify and JSON.parse\<close>

text \<open>
  A JavaScript value that JSON can carry. An object is the list of its properties in
  creation order; a property whose value is \<open>undefined\<close> is an absent property, as
  \<open>JSON.stringify\<close> writes neither. A number is kept as the JSON text that denotes it:
  the conversion to a double and back is not modelled, and no field of a worksheet is a
  number. The enumeration order of integer-like keys is not modelled either; no key of a
  worksheet is integer-like.
\<close>

datatype jsvalue =
    JNull
  | JBool bool
  | JNumber jsstring
  | JString jsstring
  | JArray "jsvalue list"
  | JObject "(jsstring \<times> jsvalue) list"

definition isLeadSurrogate :: "codeunit \<Rightarrow> bool" where
  "isLeadSurrogate c \<longleftrightarrow> 55296 \<le> c \<and> c \<le> 56319"

definition isTrailSurrogate :: "codeunit \<Rightarrow> bool" where
  "isTrailSurrogate c \<longleftrightarrow> 56320 \<le> c \<and> c \<le> 57343"

definition hexDigit :: "nat \<Rightarrow> codeunit" where
  "hexDigit d = (if d < 10 then 48 + d else 87 + d)"

definition unicodeEscape :: "codeunit \<Rightarrow> jsstring" where
  "unicodeEscape c =
     [92, 117, hexDigit (c div 4096 mod 16), hexDigit (c div 256 mod 16),
      hexDigit (c div 16 mod 16), hexDigit (c mod 16)]"

definition escapeChar :: "codeunit \<Rightarrow> jsstring" where
  "escapeChar c =
     (if c = 8 then [92, 98]
      else if c = 9 then [92, 116]
      else if c = 10 then [92, 110]
      else if c = 12 then [92, 102]
      else if c = 13 then [92, 114]
      else if c = 34 then [92, 34]
      else if c = 92 then [92, 92]
      else if c < 32 then unicodeEscape c
      else [c])"

fun quoteChars :: "jsstring \<Rightarrow> jsstring" where
  "quoteChars [] = []"
| "quoteChars (c # cs) =
     (if isLeadSurrogate c then
        (case cs of
           [] \<Rightarrow> unicodeEscape c
         | d # ds \<Rightarrow>
             if isTrailSurrogate d then c # d # quoteChars ds
             else unicodeEscape c @ quoteChars cs)
      else if isTrailSurrogate c then unicodeEscape c @ quoteChars cs
      else escapeChar c @ quoteChars cs)"

definition quoteJSONString :: "jsstring \<Rightarrow> jsstring" where
  "quoteJSONString s = [34] @ quoteChars s @ [34]"

fun commaSep :: "jsstring list \<Rightarrow> jsstring" where
  "commaSep [] = []"
| "commaSep [x] = x"
| "commaSep (x # y # ys) = x @ [44] @ commaSep (y # ys)"

fun JSON_stringify :: "jsvalue \<Rightarrow> jsstring" where
  "JSON_stringify JNull = js ''null''"
| "JSON_stringify (JBool b) = (if b then js ''true'' else js ''false'')"
| "JSON_stringify (JNumber t) = t"
| "JSON_stringify (JString s) = quoteJSONString s"
| "JSON_stringify (JArray vs) = [91] @ commaSep (map JSON_stringify vs) @ [93]"
| "JSON_stringify (JObject kvs) =
     [123] @ commaSep (map (\<lambda>(k, v). quoteJSONString k @ [58] @ JSON_stringify v) kvs) @ [125]"

text \<open>
  \<open>JSON.parse\<close>: the JSON grammar with its whitespace, escapes and numbers.
  \<open>parseChars\<close> reads a string after its opening quote. \<open>parseValue\<close>,
  \<open>parseElements\<close> (the elements of an array after \<open>[\<close>) and \<open>parseMembers\<close> (the
  members of an object after \<open>{\<close>) return the value read and the rest of the text; their
  first argument bounds the number of nested calls, and \<open>JSON_parse\<close> supplies
  \<open>2 * length text + 1\<close>. Text left after the value is a syntax error.
\<close>

definition isJsonWs :: "codeunit \<Rightarrow> bool" where
  "isJsonWs c \<longleftrightarrow> c = 32 \<or> c = 9 \<or> c = 10 \<or> c = 13"

definition skipWs :: "jsstring \<Rightarrow> jsstring" where
  "skipWs s = dropWhile isJsonWs s"

definition hexValue :: "codeunit \<Rightarrow> nat option" where
  "hexValue c =
     (if 48 \<le> c \<and> c \<le> 57 then Some (c - 48)
      else if 97 \<le> c \<and> c \<le> 102 then Some (c - 87)
      else if 65 \<le> c \<and> c \<le> 70 then Some (c - 55)
      else None)"

definition hex4 :: "codeunit \<Rightarrow> codeunit \<Rightarrow> codeunit \<Rightarrow> codeunit \<Rightarrow> codeunit option" where
  "hex4 a b c d =
     (case (hexValue a, hexValue b, hexValue c, hexValue d) of
        (Some w, Some x, Some y, Some z) \<Rightarrow> Some (((w * 16 + x) * 16 + y) * 16 + z)
      | _ \<Rightarrow> None)"

definition unescape :: "codeunit \<Rightarrow> codeunit option" where
  "unescape e =
     (if e = 34 then Some 34
      else if e = 92 then Some 92
      else if e = 47 then Some 47
      else if e = 98 then Some 8
      else if e = 102 then Some 12
      else if e = 110 then Some 10
      else if e = 114 then Some 13
      else if e = 116 then Some 9
      else None)"

definition consChar :: "codeunit \<Rightarrow> (jsstring \<times> jsstring) option \<Rightarrow> (jsstring \<times> jsstring) option" where
  "consChar c r = (case r of None \<Rightarrow> None | Some (str, rest) \<Rightarrow> Some (c # str, rest))"

fun parseChars :: "jsstring \<Rightarrow> (jsstring \<times> jsstring) option" where
  "parseChars [] = None"
| "parseChars (c # cs) =
     (if c = 34 then Some ([], cs)
      else if c = 92 then
        (case cs of
           [] \<Rightarrow> None
         | e # es \<Rightarrow>
             (if e = 117 then
                (case es of
                   a # b # c' # d # rest \<Rightarrow>
                     (case hex4 a b c' d of
                        None \<Rightarrow> None
                      | Some u \<Rightarrow> consChar u (parseChars rest))
                 | _ \<Rightarrow> None)
              else (case unescape e of
                      None \<Rightarrow> None
                    | Some u \<Rightarrow> consChar u (parseChars es))))
      else if c < 32 then None
      else consChar c (parseChars cs))"

definition isDigit :: "codeunit \<Rightarrow> bool" where
  "isDigit c \<longleftrightarrow> 48 \<le> c \<and> c \<le> 57"

definition parseDigits :: "jsstring \<Rightarrow> (jsstring \<times> jsstring) option" where
  "parseDigits s =
     (if takeWhile isDigit s = [] then None
      else Some (takeWhile isDigit s, dropWhile isDigit s))"

definition parseNumber :: "jsstring \<Rightarrow> (jsstring \<times> jsstring) option" where
  "parseNumber s =
     (let (sign, s1) = (case s of c # cs \<Rightarrow> if c = 45 then ([45], cs) else ([], s) | [] \<Rightarrow> ([], s))
      in case (case s1 of
                 [] \<Rightarrow> None
               | d # ds \<Rightarrow>
                   if d = 48 then Some ([48], ds)
                   else if 49 \<le> d \<and> d \<le> 57 then Some (d # takeWhile isDigit ds, dropWhile isDigit ds)
                   else None) of
           None \<Rightarrow> None
         | Some (int_part, s2) \<Rightarrow>
             (case (case s2 of
                      c # cs \<Rightarrow>
                        if c = 46 then
                          (case parseDigits cs of
                             None \<Rightarrow> None
                           | Some (ds, r) \<Rightarrow> Some (46 # ds, r))
                        else Some ([], s2)
                    | [] \<Rightarrow> Some ([], s2)) of
                None \<Rightarrow> None
              | Some (frac, s3) \<Rightarrow>
                  (case (case s3 of
                           c # cs \<Rightarrow>
                             if c = 101 \<or> c = 69 then
                               (let (esign, s4) =
                                      (case cs of
                                         x # xs \<Rightarrow> if x = 43 \<or> x = 45 then ([x], xs) else ([], cs)
                                       | [] \<Rightarrow> ([], cs))
                                in case parseDigits s4 of
                                     None \<Rightarrow> None
                                   | Some (ds, r) \<Rightarrow> Some (c # esign @ ds, r))
                             else Some ([], s3)
                         | [] \<Rightarrow> Some ([], s3)) of
                     None \<Rightarrow> None
                   | Some (ex, s5) \<Rightarrow> Some (sign @ int_part @ frac @ ex, s5))))"

text \<open>
  Defining a property on the object under construction: a key met again keeps its place
  and takes the new value.
\<close>

fun defineProperty :: "jsstring \<Rightarrow> jsvalue \<Rightarrow> (jsstring \<times> jsvalue) list \<Rightarrow> (jsstring \<times> jsvalue) list" where
  "defineProperty k v [] = [(k, v)]"
| "defineProperty k v (p # ps) = (if fst p = k then (k, v) # ps else p # defineProperty k v ps)"

definition literalAt :: "jsstring \<Rightarrow> jsstring \<Rightarrow> bool" where
  "literalAt lit s \<longleftrightarrow> take (length lit) s = lit"

fun parseValue :: "nat \<Rightarrow> jsstring \<Rightarrow> (jsvalue \<times> jsstring) option"
  and parseElements :: "nat \<Rightarrow> jsstring \<Rightarrow> (jsvalue list \<times> jsstring) option"
  and parseMembers :: "nat \<Rightarrow> jsstring \<Rightarrow> ((jsstring \<times> jsvalue) list \<times> jsstring) option" where
  "parseValue 0 s = None"
| "parseValue (Suc n) s =
     (case skipWs s of
        [] \<Rightarrow> None
      | c # cs \<Rightarrow>
          if c = 34 then
            (case parseChars cs of
               None \<Rightarrow> None
             | Some (str, rest) \<Rightarrow> Some (JString str, rest))
          else if c = 91 then
            (case skipWs cs of
               [] \<Rightarrow> None
             | d # ds \<Rightarrow>
                 if d = 93 then Some (JArray [], ds)
                 else (case parseElements n cs of
                         None \<Rightarrow> None
                       | Some (vs, rest) \<Rightarrow> Some (JArray vs, rest)))
          else if c = 123 then
            (case skipWs cs of
               [] \<Rightarrow> None
             | d # ds \<Rightarrow>
                 if d = 125 then Some (JObject [], ds)
                 else (case parseMembers n cs of
                         None \<Rightarrow> None
                       | Some (kvs, rest) \<Rightarrow> Some (JObject (foldl (\<lambda>obj (k, v). defineProperty k v obj) [] kvs), rest)))
          else if literalAt (js ''true'') (c # cs) then Some (JBool True, drop 4 (c # cs))
          else if literalAt (js ''false'') (c # cs) then Some (JBool False, drop 5 (c # cs))
          else if literalAt (js ''null'') (c # cs) then Some (JNull, drop 4 (c # cs))
          else (case parseNumber (c # cs) of
                  None \<Rightarrow> None
                | Some (t, rest) \<Rightarrow> Some (JNumber t, rest)))"
| "parseElements 0 s = None"
| "parseElements (Suc n) s =
     (case parseValue n s of
        None \<Rightarrow> None
      | Some (v, rest) \<Rightarrow>
          (case skipWs rest of
             [] \<Rightarrow> None
           | c # cs \<Rightarrow>
               if c = 44 then
                 (case parseElements n cs of
                    None \<Rightarrow> None
                  | Some (vs, rest') \<Rightarrow> Some (v # vs, rest'))
               else if c = 93 then Some ([v], cs)
               else None))"
| "parseMembers 0 s = None"
| "parseMembers (Suc n) s =
     (case skipWs s of
        [] \<Rightarrow> None
      | q # qs \<Rightarrow>
          if q = 34 then
            (case parseChars qs of
               None \<Rightarrow> None
             | Some (k, rest) \<Rightarrow>
                 (case skipWs rest of
                    [] \<Rightarrow> None
                  | c # cs \<Rightarrow>
                      if c = 58 then
                        (case parseValue n cs of
                           None \<Rightarrow> None
                         | Some (v, rest') \<Rightarrow>
                             (case skipWs rest' of
                                [] \<Rightarrow> None
                              | e # es \<Rightarrow>
                                  if e = 44 then
                                    (case parseMembers n es of
                                       None \<Rightarrow> None
                                     | Some (kvs, rest'') \<Rightarrow> Some ((k, v) # kvs, rest''))
                                  else if e = 125 then Some ([(k, v)], es)
                                  else None))
                      else None))
          else None)"

definition JSON_parse :: "jsstring \<Rightarrow> jsvalue option" where
  "JSON_parse text =
     (case parseValue (2 * length text + 1) text of
        None \<Rightarrow> None
      | Some (v, rest) \<Rightarrow> if skipWs rest = [] then Some v else None)"

subsection \<open>String.prototype.replace with a string pattern\<close>

text \<open>The first occurrence of the pattern is replaced; the replacement here is empty.\<close>

fun replaceFirst :: "jsstring \<Rightarrow> jsstring \<Rightarrow> jsstring \<Rightarrow> jsstring" where
  "replaceFirst pat rep [] = (if pat = [] then rep else [])"
| "replaceFirst pat rep (c # cs) =
     (if take (length pat) (c # cs) = pat then rep @ drop (length pat) (c # cs)
      else c # replaceFirst pat rep cs)"

section \<open>Serialization codec (helpers.ts)\<close>

text \<open>
  \<open>encodeState\<close> returns the empty string when \<open>btoa\<close> throws. \<open>decodeState\<close>
  returns whatever \<open>JSON.parse\<close> yields, and \<open>null\<close> when \<open>atob\<close> or
  \<open>JSON.parse\<close> throws.
\<close>

definition encodeState :: "jsvalue \<Rightarrow> jsstring" where
  "encodeState data =
     (case btoa (JSON_stringify data) of
        Some encoded \<Rightarrow> encoded
      | None \<Rightarrow> [])"

definition decodeState :: "jsstring \<Rightarrow> jsvalue" where
  "decodeState hash =
     (case atob (replaceFirst (js ''#data='') [] hash) of
        None \<Rightarrow> JNull
      | Some json \<Rightarrow>
          (case JSON_parse json of
             None \<Rightarrow> JNull
           | Some v \<Rightarrow> v))"

subsection \<open>Worksheets as JavaScript values\<close>

text \<open>
  The JavaScript object that a typed worksheet stands for, with the properties in the
  order in which \<open>createBlock\<close> and the initial state write them. An optional field
  that is \<open>None\<close> is left out.
\<close>

definition optional :: "jsstring \<Rightarrow> ('a \<Rightarrow> jsvalue) \<Rightarrow> 'a option \<Rightarrow> (jsstring \<times> jsvalue) list" where
  "optional k f x = (case x of None \<Rightarrow> [] | Some y \<Rightarrow> [(k, f y)])"

definition stringsToJS :: "jsstring list \<Rightarrow> jsvalue" where
  "stringsToJS xs = JArray (map JString xs)"

definition nullableToJS :: "jsstring nullable \<Rightarrow> jsvalue" where
  "nullableToJS x = (case x of Null \<Rightarrow> JNull | Value s \<Rightarrow> JString s)"

definition answerToJS :: "answer \<Rightarrow> jsvalue" where
  "answerToJS a = (case a of Single s \<Rightarrow> JString s | Multiple xs \<Rightarrow> stringsToJS xs)"

definition qTypeName :: "QuestionType \<Rightarrow> jsstring" where
  "qTypeName q =
     (case q of
        MultipleChoice \<Rightarrow> js ''multiple-choice''
      | OpenAnswer \<Rightarrow> js ''open-answer''
      | ClozeText \<Rightarrow> js ''cloze-text''
      | ClozeDropdown \<Rightarrow> js ''cloze-dropdown''
      | DragInline \<Rightarrow> js ''drag-inline'')"

definition fontName :: "Font \<Rightarrow> jsstring" where
  "fontName f = (case f of Sans \<Rightarrow> js ''sans'' | Serif \<Rightarrow> js ''serif'' | Mono \<Rightarrow> js ''mono'')"

definition questionFieldsToJS :: "QuestionFields \<Rightarrow> (jsstring \<times> jsvalue) list" where
  "questionFieldsToJS q =
     optional (js ''qType'') (\<lambda>t. JString (qTypeName t)) (qType q)
     @ [(js ''prompt'', JString (prompt q))]
     @ optional (js ''listItems'') stringsToJS (listItems q)
     @ optional (js ''options'') stringsToJS (options q)
     @ optional (js ''image'') nullableToJS (image q)
     @ optional (js ''description'') nullableToJS (description q)
     @ optional (js ''multiSelect'') JBool (multiSelect q)
     @ optional (js ''correctAnswer'') answerToJS (correctAnswer q)"

fun blockToJS :: "Block \<Rightarrow> jsvalue" where
  "blockToJS (TextBlock i c) =
     JObject [(js ''id'', JString i), (js ''type'', JString (js ''text'')), (js ''content'', JString c)]"
| "blockToJS (DividerBlock i) =
     JObject [(js ''id'', JString i), (js ''type'', JString (js ''divider''))]"
| "blockToJS (EmbedBlock i u t) =
     JObject ([(js ''id'', JString i), (js ''type'', JString (js ''embed'')), (js ''url'', JString u)]
              @ optional (js ''title'') JString t)"
| "blockToJS (QuestionBlock i q) =
     JObject ([(js ''id'', JString i), (js ''type'', JString (js ''question''))] @ questionFieldsToJS q)"
| "blockToJS (GroupBlock i t ch) =
     JObject ([(js ''id'', JString i), (js ''type'', JString (js ''group''))]
              @ optional (js ''title'') JString t
              @ [(js ''children'', JArray (map blockToJS ch))])"

definition designToJS :: "DesignSettings \<Rightarrow> jsvalue" where
  "designToJS d = JObject [(js ''accentColor'', JString (accentColor d)), (js ''font'', JString (fontName (font d)))]"

definition worksheetToJS :: "WorksheetData \<Rightarrow> jsvalue" where
  "worksheetToJS w =
     JObject ([(js ''title'', JString (ws_title w)), (js ''description'', JString (ws_description w)),
               (js ''blocks'', JArray (map blockToJS (ws_blocks w)))]
              @ optional (js ''design'') designToJS (ws_design w))"

section \<open>Notions used in the statements\<close>

text \<open>
  All blocks of a tree in document order (each group before its descendants), their number,
  and their identifiers.
\<close>

function allBlocks :: "Block list \<Rightarrow> Block list" where
  "allBlocks [] = []"
| "allBlocks (b # bs) = b # allBlocks (childrenOf b) @ allBlocks bs"
  by pat_completeness auto
termination
proof (relation "measure (size_list size)", goal_cases)
  case (2 b bs)
  show ?case by (cases b) simp_all
qed simp_all

definition countBlocks :: "Block list \<Rightarrow> nat" where
  "countBlocks t = length (allBlocks t)"

definition allIds :: "Block list \<Rightarrow> jsstring list" where
  "allIds t = map block_id (allBlocks t)"

text \<open>
  The number of page breaks of a top-level list, and the segmentation written as a plain
  recursion with the current run as accumulator.
\<close>

definition dividerCount :: "Block list \<Rightarrow> nat" where
  "dividerCount bs = length (filter (\<lambda>b. block_type b = TDivider) bs)"

fun runs :: "Block list \<Rightarrow> Block list \<Rightarrow> Block list list" where
  "runs cur [] = [cur]"
| "runs cur (b # bs) =
     (if block_type b = TDivider then cur # [b] # runs [] bs else runs (cur @ [b]) bs)"

text \<open>
  Every call of \<open>updateBlock\<close> in the editor passes \<open>{...block, field: value}\<close> for a
  block drawn by \<open>EditorBlockWrapper\<close>: identifier, type and children of the new value are
  those of the block. Page breaks are drawn by the board itself, with a handle and a delete
  button only, so they are never updated.
\<close>

definition editOf :: "Block \<Rightarrow> Block \<Rightarrow> bool" where
  "editOf block newData \<longleftrightarrow>
     block_id newData = block_id block \<and> block_type newData = block_type block
     \<and> childrenOf newData = childrenOf block"

text \<open>
  The documents reachable from the initial one by the editing operations: editing the
  header fields, clearing, adding from the palette, updating, removing and duplicating a
  block, and any call of \<open>handleDragDrop\<close>. Generated identifiers are arbitrary. Loading a
  document from a link or a file is not an editing operation.
\<close>

inductive reachable :: "WorksheetData \<Rightarrow> bool" where
  initial: "reachable initialData"
| header: "reachable d \<Longrightarrow> reachable (d\<lparr>ws_title := t, ws_description := de, ws_design := ds\<rparr>)"
| clear: "reachable d \<Longrightarrow> reachable (d\<lparr>ws_blocks := []\<rparr>)"
| add: "reachable d \<Longrightarrow> reachable (addBlock newId type qt d)"
| update: "reachable d \<Longrightarrow> block \<in> set (allBlocks (ws_blocks d)) \<Longrightarrow> block_type block \<noteq> TDivider
     \<Longrightarrow> editOf block newData \<Longrightarrow> reachable (updateBlock (block_id block) newData d)"
| remove: "reachable d \<Longrightarrow> reachable (removeBlock ident d)"
| duplicate: "reachable d \<Longrightarrow> block \<in> set (allBlocks (ws_blocks d))
     \<Longrightarrow> reachable (duplicateBlock gen n block d)"
| drop: "reachable d \<Longrightarrow> reachable (handleDragDrop item targetId targetParentId targetIndex newId d)"

text \<open>
  \<open>dividerFree t\<close>: no page break at any depth of \<open>t\<close>. \<open>rootOnly t\<close>: page breaks
  occur in the root list only.
\<close>

definition dividerFree :: "Block list \<Rightarrow> bool" where
  "dividerFree t \<longleftrightarrow> (\<forall>b\<in>set (allBlocks t). block_type b \<noteq> TDivider)"

definition rootOnly :: "Block list \<Rightarrow> bool" where
  "rootOnly t \<longleftrightarrow> (\<forall>b\<in>set t. dividerFree (childrenOf b))"

text \<open>
  The nesting depth of the first block, in document order, that carries an identifier
  (\<open>depthIn 0\<close>: root blocks have depth 0, the children of a root group depth 1), and
  the identifiers of all groups of a tree.
\<close>

function depthIn :: "nat \<Rightarrow> Block list \<Rightarrow> jsstring \<Rightarrow> nat option" where
  "depthIn depth [] ident = None"
| "depthIn depth (b # bs) ident =
     (if block_id b = ident then Some depth
      else (case depthIn (Suc depth) (childrenOf b) ident of
              Some k \<Rightarrow> Some k
            | None \<Rightarrow> depthIn depth bs ident))"
  by pat_completeness auto
termination
proof (relation "measure (\<lambda>(depth, t, ident). size_list size t)", goal_cases)
  case (2 depth b bs ident)
  show ?case by (cases b) simp_all
qed simp_all

definition groupIds :: "Block list \<Rightarrow> jsstring list" where
  "groupIds t = map block_id (filter (\<lambda>b. block_type b = TGroup) (allBlocks t))"

text \<open>
  A document built in the editor: three groups 0, 1, 3 and a text block 2 are added,
  the text is dropped on the drop zone of group 1 and group 1 on the drop zone of group 0.
\<close>

definition nestedDocument :: WorksheetData where
  "nestedDocument =
     handleDragDrop (onBadgeDragStart (createBlock [1] TGroup None) 1 None) None (Some [0]) (Some 0) []
       (handleDragDrop (onBadgeDragStart (createBlock [2] TText None) 2 None) None (Some [1]) (Some 0) []
          (addBlock [3] TGroup None (addBlock [2] TText None
             (addBlock [1] TGroup None (addBlock [0] TGroup None initialData)))))"

text \<open>
  The text of \<open>b64encode\<close> splits into the characters of its 6-bit values and the
  padding.
\<close>

fun b64values :: "nat list \<Rightarrow> nat list" where
  "b64values (a # b # c # rest) =
     [a div 4, (a mod 4) * 16 + b div 16, (b mod 16) * 4 + c div 64, c mod 64] @ b64values rest"
| "b64values [a, b] = [a div 4, (a mod 4) * 16 + b div 16, (b mod 16) * 4]"
| "b64values [a] = [a div 4, (a mod 4) * 16]"
| "b64values [] = []"

fun b64padding :: "nat list \<Rightarrow> jsstring" where
  "b64padding (a # b # c # rest) = b64padding rest"
| "b64padding [a, b] = [61]"
| "b64padding [a] = [61, 61]"
| "b64padding [] = []"

text \<open>
  \<open>latin1\<close>: every code unit is below 256, the domain of \<open>btoa\<close>. \<open>latin1Value\<close>:
  every string and every key in a value is. \<open>plain\<close>: a value without numbers whose
  objects have no key twice.
\<close>

definition latin1 :: "jsstring \<Rightarrow> bool" where
  "latin1 s = list_all (\<lambda>c. c < 256) s"

fun plain :: "jsvalue \<Rightarrow> bool" where
  "plain JNull = True"
| "plain (JBool b) = True"
| "plain (JNumber t) = False"
| "plain (JString s) = True"
| "plain (JArray vs) = list_all plain vs"
| "plain (JObject kvs) = (distinct (map fst kvs) \<and> list_all (\<lambda>(k, v). plain v) kvs)"

fun latin1Value :: "jsvalue \<Rightarrow> bool" where
  "latin1Value JNull = True"
| "latin1Value (JBool b) = True"
| "latin1Value (JNumber t) = latin1 t"
| "latin1Value (JString s) = latin1 s"
| "latin1Value (JArray vs) = list_all latin1Value vs"
| "latin1Value (JObject kvs) = list_all (\<lambda>(k, v). latin1 k \<and> latin1Value v) kvs"

text \<open>The text of one member of an object.\<close>

definition memberText :: "jsstring \<times> jsvalue \<Rightarrow> jsstring" where
  "memberText kv = quoteJSONString (fst kv) @ [58] @ JSON_stringify (snd kv)"

text \<open>
  \<open>replacedIn ident newData t t'\<close>: the tree \<open>t'\<close> is \<open>t\<close> with one block, whose
  identifier is \<open>ident\<close>, replaced by \<open>newData\<close>, in the root list or in the children
  list of a group at any depth; every other block and every other list is as it was.
\<close>

inductive replacedIn :: "jsstring \<Rightarrow> Block \<Rightarrow> Block list \<Rightarrow> Block list \<Rightarrow> bool"
  for ident :: jsstring and newData :: Block where
  here: "block_id b = ident \<Longrightarrow> replacedIn ident newData (pre @ b # post) (pre @ newData # post)"
| inside: "replacedIn ident newData ch ch' \<Longrightarrow>
     replacedIn ident newData (pre @ GroupBlock j t ch # post) (pre @ GroupBlock j t ch' # post)"

text \<open>
  \<open>insertedAfter block newBlock t t'\<close>: the tree \<open>t'\<close> is \<open>t\<close> with \<open>newBlock\<close>
  inserted immediately after one occurrence of \<open>block\<close>, in the list that holds it.
\<close>

inductive insertedAfter :: "Block \<Rightarrow> Block \<Rightarrow> Block list \<Rightarrow> Block list \<Rightarrow> bool"
  for block :: Block and newBlock :: Block where
  here: "insertedAfter block newBlock (pre @ block # post) (pre @ block # newBlock # post)"
| inside: "insertedAfter block newBlock ch ch' \<Longrightarrow>
     insertedAfter block newBlock (pre @ GroupBlock j t ch # post) (pre @ GroupBlock j t ch' # post)"

text \<open>A block with every identifier in it blanked: what is left are the non-id fields.\<close>

fun stripIds :: "Block \<Rightarrow> Block" where
  "stripIds (GroupBlock i t ch) = GroupBlock [] t (map stripIds ch)"
| "stripIds (TextBlock i c) = TextBlock [] c"
| "stripIds (DividerBlock i) = DividerBlock []"
| "stripIds (EmbedBlock i u t) = EmbedBlock [] u t"
| "stripIds (QuestionBlock i q) = QuestionBlock [] q"

text \<open>A document holding the given blocks, for the concrete examples.\<close>

definition sheet :: "Block list \<Rightarrow> WorksheetData" where
  "sheet bs = \<lparr>ws_title = [], ws_description = [], ws_blocks = bs, ws_design = None\<rparr>"

section \<open>Segmentation: proofs\<close>

lemma fold_segments_step:
  "(case fold segments_step bs (segs, cur) of (segs', cur') \<Rightarrow> segs' @ [cur']) = segs @ runs cur bs"
  by (induction bs arbitrary: segs cur) auto

lemma segments_runs: "segments bs = runs [] bs"
  using fold_segments_step [of bs "[]" "[]"] by (simp add: segments_def)

lemma length_runs: "length (runs cur bs) = 2 * dividerCount bs + 1"
  by (induction bs arbitrary: cur) (auto simp: dividerCount_def)

lemma dividerCount_simps [simp]:
  "dividerCount [] = 0"
  "dividerCount (b # bs) = (if block_type b = TDivider then Suc (dividerCount bs) else dividerCount bs)"
  by (simp_all add: dividerCount_def)

lemma runs_even:
  "\<forall>b\<in>set cur. block_type b \<noteq> TDivider \<Longrightarrow> i \<le> dividerCount bs
   \<Longrightarrow> \<forall>b\<in>set (runs cur bs ! (2 * i)). block_type b \<noteq> TDivider"
proof (induction bs arbitrary: cur i)
  case Nil
  then show ?case by simp
next
  case (Cons b bs)
  show ?case
  proof (cases "block_type b = TDivider")
    case True
    then have r: "runs cur (b # bs) = cur # [b] # runs [] bs" by simp
    show ?thesis
    proof (cases i)
      case 0
      with Cons.prems(1) show ?thesis unfolding r by simp
    next
      case (Suc j)
      with True Cons.prems(2) have "j \<le> dividerCount bs" by simp
      then have "\<forall>b\<in>set (runs [] bs ! (2 * j)). block_type b \<noteq> TDivider"
        by (intro Cons.IH) simp_all
      moreover have "2 * i = Suc (Suc (2 * j))" using Suc by simp
      ultimately show ?thesis unfolding r by (simp only: nth_Cons_Suc)
    qed
  next
    case False
    then have r: "runs cur (b # bs) = runs (cur @ [b]) bs" by simp
    from False Cons.prems(2) have "i \<le> dividerCount bs" by simp
    moreover from False Cons.prems(1) have "\<forall>x\<in>set (cur @ [b]). block_type x \<noteq> TDivider" by simp
    ultimately show ?thesis unfolding r by (intro Cons.IH)
  qed
qed

lemma runs_odd:
  "i < dividerCount bs
   \<Longrightarrow> \<exists>b. runs cur bs ! (2 * i + 1) = [b] \<and> block_type b = TDivider"
proof (induction bs arbitrary: cur i)
  case Nil
  then show ?case by simp
next
  case (Cons b bs)
  show ?case
  proof (cases "block_type b = TDivider")
    case True
    then have r: "runs cur (b # bs) = cur # [b] # runs [] bs" by simp
    show ?thesis
    proof (cases i)
      case 0
      with True show ?thesis unfolding r by simp
    next
      case (Suc j)
      with True Cons.prems have "j < dividerCount bs" by simp
      then have "\<exists>b. runs [] bs ! (2 * j + 1) = [b] \<and> block_type b = TDivider"
        by (rule Cons.IH)
      moreover have "2 * i + 1 = Suc (Suc (2 * j + 1))" using Suc by simp
      ultimately show ?thesis unfolding r by (simp only: nth_Cons_Suc)
    qed
  next
    case False
    then have r: "runs cur (b # bs) = runs (cur @ [b]) bs" by simp
    from False Cons.prems have "i < dividerCount bs" by simp
    then show ?thesis unfolding r by (rule Cons.IH)
  qed
qed

lemma concat_runs: "concat (runs cur bs) = cur @ bs"
  by (induction bs arbitrary: cur) auto

text \<open>
  Claim C6. A top-level list with \<open>d\<close> divider blocks is cut into exactly \<open>2d + 1\<close>
  segments: the segments at even positions hold no divider, the segments at odd positions
  are single dividers, and the segments concatenated give the list back. So the first
  segment exists even for an empty list and the last run is appended even when empty.
  The three examples of the specification are the last three conjuncts. (The copy in
  components/Answer.tsx runs the same loop whenever a document is loaded.)
\<close>

theorem segments_interleaved:
  "length (segments bs) = 2 * dividerCount bs + 1
   \<and> (\<forall>i\<le>dividerCount bs. \<forall>b\<in>set (segments bs ! (2 * i)). block_type b \<noteq> TDivider)
   \<and> (\<forall>i<dividerCount bs. \<exists>b. segments bs ! (2 * i + 1) = [b] \<and> block_type b = TDivider)
   \<and> concat (segments bs) = bs
   \<and> segments [] = [[]]
   \<and> segments [DividerBlock d] = [[], [DividerBlock d], []]
   \<and> segments [TextBlock t c, DividerBlock d, QuestionBlock q f]
       = [[TextBlock t c], [DividerBlock d], [QuestionBlock q f]]"
proof (intro conjI allI impI)
  show "length (segments bs) = 2 * dividerCount bs + 1"
    by (simp only: segments_runs length_runs)
  show "concat (segments bs) = bs"
    by (simp add: segments_runs concat_runs)
  show "segments [] = [[]]" by (simp add: segments_runs)
  show "segments [DividerBlock d] = [[], [DividerBlock d], []]" by (simp add: segments_runs)
  show "segments [TextBlock t c, DividerBlock d, QuestionBlock q f]
       = [[TextBlock t c], [DividerBlock d], [QuestionBlock q f]]" by (simp add: segments_runs)
next
  fix i assume "i \<le> dividerCount bs"
  then show "\<forall>b\<in>set (segments bs ! (2 * i)). block_type b \<noteq> TDivider"
    unfolding segments_runs by (intro runs_even) simp_all
next
  fix i assume "i < dividerCount bs"
  then show "\<exists>b. segments bs ! (2 * i + 1) = [b] \<and> block_type b = TDivider"
    unfolding segments_runs by (rule runs_odd)
qed

theorem segments_interleaved_witness:
  "dividerCount [TextBlock [1] [], DividerBlock [2], GroupBlock [3] None []] = 1
   \<and> segments [TextBlock [1] [], DividerBlock [2], GroupBlock [3] None []]
       = [[TextBlock [1] []], [DividerBlock [2]], [GroupBlock [3] None []]]
   \<and> length (segments [TextBlock [1] [], DividerBlock [2], GroupBlock [3] None []]) = 3"
  using segments_interleaved [of "[TextBlock [1] [], DividerBlock [2], GroupBlock [3] None []]"]
  by (simp add: dividerCount_def segments_def)

section \<open>Removal: proofs\<close>

lemma allBlocks_append: "allBlocks (xs @ ys) = allBlocks xs @ allBlocks ys"
  by (induction xs) simp_all

lemma allIds_simps [simp]:
  "allIds [] = []"
  "allIds (b # bs) = block_id b # allIds (childrenOf b) @ allIds bs"
  by (simp_all add: allIds_def)

lemma allIds_append [simp]: "allIds (xs @ ys) = allIds xs @ allIds ys"
  by (simp add: allIds_def allBlocks_append)

lemma countBlocks_simps [simp]:
  "countBlocks [] = 0"
  "countBlocks (b # bs) = Suc (countBlocks (childrenOf b) + countBlocks bs)"
  by (simp_all add: countBlocks_def)

lemmas blocks_induct = allBlocks.induct [case_names Nil Cons]

lemma removeBlockRecursive_Nil [simp]: "removeBlockRecursive [] i = []"
  by (simp add: removeBlockRecursive.simps)

lemma removeBlockRecursive_Cons:
  "removeBlockRecursive (b # bs) i =
     (if block_id b = i then removeBlockRecursive bs i
      else (case b of
              GroupBlock j t ch \<Rightarrow> GroupBlock j t (removeBlockRecursive ch i)
            | _ \<Rightarrow> b) # removeBlockRecursive bs i)"
  by (simp add: removeBlockRecursive.simps [of "b # bs"] removeBlockRecursive.simps [of bs])

lemma removeBlockRecursive_absent: "i \<notin> set (allIds t) \<Longrightarrow> removeBlockRecursive t i = t"
  by (induction t rule: blocks_induct) (auto simp: removeBlockRecursive_Cons split: Block.splits)

lemma allIds_removeBlockRecursive: "set (allIds (removeBlockRecursive t i)) \<subseteq> set (allIds t) - {i}"
  by (induction t rule: blocks_induct) (auto simp: removeBlockRecursive_Cons split: Block.splits)

lemma findBlock_None_iff: "findBlock t i = None \<longleftrightarrow> i \<notin> set (allIds t)"
  by (induction t rule: blocks_induct) (auto split: Block.splits option.splits)

lemma subtree_ids: "g \<in> set (allBlocks t) \<Longrightarrow> set (block_id g # allIds (childrenOf g)) \<subseteq> set (allIds t)"
proof (induction t rule: blocks_induct)
  case Nil
  then show ?case by simp
next
  case (Cons b bs)
  from Cons.prems have "g = b \<or> g \<in> set (allBlocks (childrenOf b)) \<or> g \<in> set (allBlocks bs)"
    by simp
  then show ?case using Cons.IH by auto
qed

lemma remove_group_count:
  "distinct (allIds t) \<Longrightarrow> g \<in> set (allBlocks t) \<Longrightarrow>
   countBlocks (removeBlockRecursive t (block_id g)) + countBlocks (childrenOf g) + 1 = countBlocks t
   \<and> set (allIds (removeBlockRecursive t (block_id g))) \<inter> set (block_id g # allIds (childrenOf g)) = {}"
proof (induction t rule: blocks_induct)
  case Nil
  then show ?case by simp
next
  case (Cons b bs)
  let ?i = "block_id g"
  from Cons.prems(2) consider (here) "g = b" | (below) "g \<in> set (allBlocks (childrenOf b))"
    | (after) "g \<in> set (allBlocks bs)"
    by auto
  then show ?case
  proof cases
    case here
    with Cons.prems(1) have "?i \<notin> set (allIds bs)" by simp
    then have "removeBlockRecursive bs ?i = bs" by (rule removeBlockRecursive_absent)
    with here Cons.prems(1) show ?thesis
      by (auto simp: removeBlockRecursive_Cons)
  next
    case below
    from subtree_ids [OF below] have sub: "set (?i # allIds (childrenOf g)) \<subseteq> set (allIds (childrenOf b))" .
    with Cons.prems(1) have ne: "block_id b \<noteq> ?i" and nb: "?i \<notin> set (allIds bs)" by auto
    from nb have bs: "removeBlockRecursive bs ?i = bs" by (rule removeBlockRecursive_absent)
    from Cons.prems(1) have "distinct (allIds (childrenOf b))" by simp
    from Cons.IH(1) [OF this below] have IH:
      "countBlocks (removeBlockRecursive (childrenOf b) ?i) + countBlocks (childrenOf g) + 1 = countBlocks (childrenOf b)"
      "set (allIds (removeBlockRecursive (childrenOf b) ?i)) \<inter> set (?i # allIds (childrenOf g)) = {}"
      by simp_all
    from below obtain j tt ch where b: "b = GroupBlock j tt ch" by (cases b) auto
    from sub Cons.prems(1) have d: "set (allIds bs) \<inter> set (?i # allIds (childrenOf g)) = {}"
      "block_id b \<notin> set (?i # allIds (childrenOf g))" by auto
    show ?thesis using ne bs IH d b
      by (auto simp: removeBlockRecursive_Cons)
  next
    case after
    from subtree_ids [OF after] have sub: "set (?i # allIds (childrenOf g)) \<subseteq> set (allIds bs)" .
    with Cons.prems(1) have ne: "block_id b \<noteq> ?i" and nb: "?i \<notin> set (allIds (childrenOf b))" by auto
    from nb have ch: "removeBlockRecursive (childrenOf b) ?i = childrenOf b" by (rule removeBlockRecursive_absent)
    from Cons.prems(1) have "distinct (allIds bs)" by simp
    from Cons.IH(2) [OF this after] have IH:
      "countBlocks (removeBlockRecursive bs ?i) + countBlocks (childrenOf g) + 1 = countBlocks bs"
      "set (allIds (removeBlockRecursive bs ?i)) \<inter> set (?i # allIds (childrenOf g)) = {}"
      by simp_all
    from sub Cons.prems(1) have d: "set (allIds (childrenOf b)) \<inter> set (?i # allIds (childrenOf g)) = {}"
      "block_id b \<notin> set (?i # allIds (childrenOf g))" by auto
    show ?thesis using ne ch IH d
      by (cases b) (auto simp: removeBlockRecursive_Cons)
  qed
qed


text \<open>
  Claim C3, amended. In a tree whose identifiers are pairwise different, removing a group
  with \<open>N\<close> descendants lowers the number of blocks by exactly \<open>N + 1\<close>, and
  afterwards \<open>findBlock\<close> finds neither the group's identifier nor that of any former
  descendant. Removing an identifier that does not occur leaves the document unchanged.
\<close>

theorem removeBlock_group_cascade:
  "(distinct (allIds (ws_blocks prev)) \<and> GroupBlock i t ch \<in> set (allBlocks (ws_blocks prev)) \<longrightarrow>
      countBlocks (ws_blocks (removeBlock i prev)) + (countBlocks ch + 1) = countBlocks (ws_blocks prev)
      \<and> findBlock (ws_blocks (removeBlock i prev)) i = None
      \<and> (\<forall>d\<in>set (allIds ch). findBlock (ws_blocks (removeBlock i prev)) d = None))
   \<and> (j \<notin> set (allIds (ws_blocks prev)) \<longrightarrow> removeBlock j prev = prev)"
proof (intro conjI impI)
  assume "j \<notin> set (allIds (ws_blocks prev))"
  then show "removeBlock j prev = prev"
    by (simp add: removeBlock_def removeBlockRecursive_absent)
next
  assume a: "distinct (allIds (ws_blocks prev)) \<and> GroupBlock i t ch \<in> set (allBlocks (ws_blocks prev))"
  from remove_group_count [of "ws_blocks prev" "GroupBlock i t ch"] a
  have c: "countBlocks (removeBlockRecursive (ws_blocks prev) i) + countBlocks ch + 1 = countBlocks (ws_blocks prev)"
    and d: "set (allIds (removeBlockRecursive (ws_blocks prev) i)) \<inter> set (i # allIds ch) = {}"
    by simp_all
  from c show "countBlocks (ws_blocks (removeBlock i prev)) + (countBlocks ch + 1) = countBlocks (ws_blocks prev)"
    by (simp add: removeBlock_def)
  from d show "findBlock (ws_blocks (removeBlock i prev)) i = None"
    by (simp add: removeBlock_def findBlock_None_iff)
  from d show "\<forall>d\<in>set (allIds ch). findBlock (ws_blocks (removeBlock i prev)) d = None"
    by (auto simp: removeBlock_def findBlock_None_iff)
qed

theorem removeBlock_group_cascade_witness:
  "distinct (allIds (ws_blocks (sheet [GroupBlock [1] None [TextBlock [2] []], TextBlock [3] []])))
   \<and> GroupBlock [1] None [TextBlock [2] []]
        \<in> set (allBlocks (ws_blocks (sheet [GroupBlock [1] None [TextBlock [2] []], TextBlock [3] []])))
   \<and> countBlocks (ws_blocks (removeBlock [1] (sheet [GroupBlock [1] None [TextBlock [2] []], TextBlock [3] []]))) + 2 = 3
   \<and> findBlock (ws_blocks (removeBlock [1] (sheet [GroupBlock [1] None [TextBlock [2] []], TextBlock [3] []]))) [2] = None
   \<and> [4] \<notin> set (allIds (ws_blocks (sheet [GroupBlock [1] None [TextBlock [2] []], TextBlock [3] []])))
   \<and> removeBlock [4] (sheet [GroupBlock [1] None [TextBlock [2] []], TextBlock [3] []])
       = sheet [GroupBlock [1] None [TextBlock [2] []], TextBlock [3] []]"
  using removeBlock_group_cascade [of "sheet [GroupBlock [1] None [TextBlock [2] []], TextBlock [3] []]"
      "[1]" None "[TextBlock [2] []]" "[4]"]
  by (simp add: sheet_def)

text \<open>
  Without the uniqueness of identifiers the count is wrong: \<open>removeBlockRecursive\<close>
  filters every block carrying the identifier, so an empty group and a text block sharing
  one identifier both disappear, two blocks instead of one.
\<close>

theorem removeBlock_shared_id_counterexample:
  "GroupBlock [1] None [] \<in> set (allBlocks (ws_blocks (sheet [GroupBlock [1] None [], TextBlock [1] []])))
   \<and> countBlocks (ws_blocks (removeBlock [1] (sheet [GroupBlock [1] None [], TextBlock [1] []])))
        + (countBlocks [] + 1)
      \<noteq> countBlocks (ws_blocks (sheet [GroupBlock [1] None [], TextBlock [1] []]))"
  by (simp add: sheet_def removeBlock_def removeBlockRecursive_Cons)

section \<open>Update: proofs\<close>

lemma replacedIn_Cons: "replacedIn i new xs ys \<Longrightarrow> replacedIn i new (x # xs) (x # ys)"
proof (induction rule: replacedIn.cases)
  case (here b pre post)
  from replacedIn.here [OF here(3), of new "x # pre" post] here show ?case by simp
next
  case (inside ch ch' pre j t post)
  from replacedIn.inside [OF inside(3), of "x # pre" j t post] inside show ?case by simp
qed

lemma updateRecursive_Nil [simp]: "updateRecursive i new [] = []"
  by (simp add: updateRecursive.simps)

lemma updateRecursive_Cons:
  "updateRecursive i new (b # bs) =
     (if block_id b = i then new
      else (case b of
              GroupBlock j t ch \<Rightarrow> GroupBlock j t (updateRecursive i new ch)
            | _ \<Rightarrow> b)) # updateRecursive i new bs"
  by (simp add: updateRecursive.simps [of i new "b # bs"] updateRecursive.simps [of i new bs])

lemma updateRecursive_absent: "i \<notin> set (allIds t) \<Longrightarrow> updateRecursive i new t = t"
  by (induction t rule: blocks_induct) (auto simp: updateRecursive_Cons split: Block.splits)

lemma updateRecursive_replaces:
  "distinct (allIds t) \<Longrightarrow> i \<in> set (allIds t) \<Longrightarrow> replacedIn i new t (updateRecursive i new t)"
proof (induction t rule: blocks_induct)
  case Nil
  then show ?case by simp
next
  case (Cons b bs)
  from Cons.prems(2) consider (here) "block_id b = i" | (below) "block_id b \<noteq> i" "i \<in> set (allIds (childrenOf b))"
    | (after) "block_id b \<noteq> i" "i \<notin> set (allIds (childrenOf b))" "i \<in> set (allIds bs)"
    by auto
  then show ?case
  proof cases
    case here
    with Cons.prems(1) have "i \<notin> set (allIds bs)" by auto
    then have "updateRecursive i new bs = bs" by (rule updateRecursive_absent)
    with here replacedIn.here [OF here, of new "[]" bs] show ?thesis
      by (simp add: updateRecursive_Cons)
  next
    case below
    with Cons.prems(1) have "i \<notin> set (allIds bs)" by auto
    then have bs: "updateRecursive i new bs = bs" by (rule updateRecursive_absent)
    from below(2) obtain j tt ch where b: "b = GroupBlock j tt ch" by (cases b) auto
    from Cons.prems(1) have "distinct (allIds (childrenOf b))" by simp
    from Cons.IH(1) [OF this below(2)] b have "replacedIn i new ch (updateRecursive i new ch)" by simp
    from replacedIn.inside [OF this, of "[]" j tt bs] b bs below(1) show ?thesis
      by (simp add: updateRecursive_Cons)
  next
    case after
    from after(2) have ch: "updateRecursive i new (childrenOf b) = childrenOf b"
      by (rule updateRecursive_absent)
    from Cons.prems(1) have "distinct (allIds bs)" by simp
    from Cons.IH(2) [OF this after(3)] have "replacedIn i new bs (updateRecursive i new bs)" .
    from replacedIn_Cons [OF this, of b] after(1) ch show ?thesis
      by (cases b) (simp_all add: updateRecursive_Cons)
  qed
qed

text \<open>
  Claim C5. In a tree with unique identifiers, \<open>updateBlock\<close> replaces the one block
  carrying the identifier by the new value, wherever it is, and changes nothing else; when
  no block carries the identifier the document is returned as it was.
\<close>

theorem updateBlock_replaces:
  "(distinct (allIds (ws_blocks prev)) \<and> i \<in> set (allIds (ws_blocks prev)) \<longrightarrow>
      replacedIn i newData (ws_blocks prev) (ws_blocks (updateBlock i newData prev)))
   \<and> (i \<notin> set (allIds (ws_blocks prev)) \<longrightarrow> updateBlock i newData prev = prev)"
  by (simp add: updateBlock_def updateRecursive_replaces updateRecursive_absent)

theorem updateBlock_replaces_witness:
  "distinct (allIds (ws_blocks (sheet [GroupBlock [1] None [TextBlock [2] []], TextBlock [3] []])))
   \<and> [2] \<in> set (allIds (ws_blocks (sheet [GroupBlock [1] None [TextBlock [2] []], TextBlock [3] []])))
   \<and> replacedIn [2] (TextBlock [2] [104, 105])
        (ws_blocks (sheet [GroupBlock [1] None [TextBlock [2] []], TextBlock [3] []]))
        (ws_blocks (updateBlock [2] (TextBlock [2] [104, 105])
           (sheet [GroupBlock [1] None [TextBlock [2] []], TextBlock [3] []])))
   \<and> ws_blocks (updateBlock [2] (TextBlock [2] [104, 105])
           (sheet [GroupBlock [1] None [TextBlock [2] []], TextBlock [3] []]))
       = [GroupBlock [1] None [TextBlock [2] [104, 105]], TextBlock [3] []]
   \<and> [4] \<notin> set (allIds (ws_blocks (sheet [TextBlock [3] []])))
   \<and> updateBlock [4] (DividerBlock [4]) (sheet [TextBlock [3] []]) = sheet [TextBlock [3] []]"
  using updateBlock_replaces [of "sheet [GroupBlock [1] None [TextBlock [2] []], TextBlock [3] []]"
      "[2]" "TextBlock [2] [104, 105]"]
    updateBlock_replaces [of "sheet [TextBlock [3] []]" "[4]" "DividerBlock [4]"]
  by (simp add: sheet_def updateBlock_def updateRecursive_Cons)

section \<open>Duplication: proofs\<close>

lemma insertedAfter_Cons: "insertedAfter b new xs ys \<Longrightarrow> insertedAfter b new (x # xs) (x # ys)"
proof (induction rule: insertedAfter.cases)
  case (here pre post)
  from insertedAfter.here [of b new "x # pre" post] here show ?case by simp
next
  case (inside ch ch' pre j t post)
  from insertedAfter.inside [OF inside(3), of "x # pre" j t post] inside show ?case by simp
qed

lemma findIndex_ge: "- 1 \<le> findIndex P xs"
  by (induction xs) (auto simp: Let_def)

lemma findIndex_none: "findIndex P xs = - 1 \<longleftrightarrow> (\<forall>x\<in>set xs. \<not> P x)"
proof (induction xs)
  case Nil
  show ?case by simp
next
  case (Cons a xs)
  with findIndex_ge [of P xs] show ?case by (auto simp: Let_def)
qed

lemma findIndex_found:
  "findIndex P xs \<noteq> - 1 \<Longrightarrow>
   \<exists>pre x post. xs = pre @ x # post \<and> P x \<and> findIndex P xs = int (length pre)"
proof (induction xs)
  case Nil
  then show ?case by simp
next
  case (Cons a xs)
  show ?case
  proof (cases "P a")
    case True
    then have "a # xs = [] @ a # xs \<and> P a \<and> findIndex P (a # xs) = int (length ([]::'a list))" by simp
    then show ?thesis by blast
  next
    case False
    with Cons.prems have "findIndex P xs \<noteq> - 1" by (auto simp: Let_def)
    from Cons.IH [OF this] obtain pre x post
      where "xs = pre @ x # post" "P x" "findIndex P xs = int (length pre)" by blast
    with False have "a # xs = (a # pre) @ x # post \<and> P x \<and> findIndex P (a # xs) = int (length (a # pre))"
      by (auto simp: Let_def)
    then show ?thesis by blast
  qed
qed

lemma splice_insert_after: "splice_insert (pre @ x # post) (int (length pre) + 1) y = pre @ x # y # post"
proof -
  have "nat (int (length pre) + 1) = Suc (length pre)" by simp
  then show ?thesis by (simp add: splice_insert_def splice_start_def min_def)
qed

lemma unique_block:
  "distinct (allIds t) \<Longrightarrow> x \<in> set (allBlocks t) \<Longrightarrow> y \<in> set (allBlocks t) \<Longrightarrow>
   block_id x = block_id y \<Longrightarrow> x = y"
  by (auto simp: allIds_def distinct_map dest: inj_onD)

lemma top_in_allBlocks: "x \<in> set t \<Longrightarrow> x \<in> set (allBlocks t)"
  by (induction t rule: blocks_induct) auto

lemma top_ids: "x \<in> set t \<Longrightarrow> block_id x \<in> set (allIds t)"
  using top_in_allBlocks [of x t] by (auto simp: allIds_def)

lemma insertAfterRecursive_Nil [simp]: "insertAfterRecursive b new [] = []"
  by (simp add: insertAfterRecursive.simps)

lemma insertAfterRecursive_miss:
  "\<forall>x\<in>set (y # ys). block_id x \<noteq> block_id b \<Longrightarrow>
   insertAfterRecursive b new (y # ys) =
     (case y of GroupBlock j t ch \<Rightarrow> GroupBlock j t (insertAfterRecursive b new ch) | _ \<Rightarrow> y)
       # insertAfterRecursive b new ys"
proof -
  assume a: "\<forall>x\<in>set (y # ys). block_id x \<noteq> block_id b"
  then have 1: "findIndex (\<lambda>x. block_id x = block_id b) (y # ys) = - 1"
    by (subst findIndex_none) simp
  from a have 2: "findIndex (\<lambda>x. block_id x = block_id b) ys = - 1"
    by (subst findIndex_none) simp
  show ?thesis
    by (subst insertAfterRecursive.simps, subst (2) insertAfterRecursive.simps)
       (simp only: 1 2 Let_def list.map if_False simp_thms)
qed

lemma insertAfterRecursive_absent:
  "block_id b \<notin> set (allIds t) \<Longrightarrow> insertAfterRecursive b new t = t"
proof (induction t rule: blocks_induct)
  case Nil
  then show ?case by simp
next
  case (Cons y ys)
  from Cons.prems have "\<forall>x\<in>set (y # ys). block_id x \<noteq> block_id b"
    using top_ids [of _ "y # ys"] by (metis)
  from insertAfterRecursive_miss [OF this] Cons show ?case
    by (cases y) auto
qed

lemma insertAfterRecursive_inserts:
  "distinct (allIds t) \<Longrightarrow> b \<in> set (allBlocks t) \<Longrightarrow> insertedAfter b new t (insertAfterRecursive b new t)"
proof (induction t rule: blocks_induct)
  case Nil
  then show ?case by simp
next
  case (Cons y ys)
  let ?P = "\<lambda>x. block_id x = block_id b"
  show ?case
  proof (cases "findIndex ?P (y # ys) = - 1")
    case False
    from findIndex_found [OF False] obtain pre x post
      where x: "y # ys = pre @ x # post" "block_id x = block_id b"
        "findIndex ?P (y # ys) = int (length pre)" by blast
    from x(1) have "x \<in> set (y # ys)" by (metis in_set_conv_decomp)
    then have "x \<in> set (allBlocks (y # ys))" by (rule top_in_allBlocks)
    from unique_block [OF Cons.prems(1) this Cons.prems(2) x(2)] have "x = b" .
    with x False have "insertAfterRecursive b new (y # ys) = pre @ b # new # post"
      by (subst insertAfterRecursive.simps) (simp add: Let_def splice_insert_after del: findIndex.simps)
    with x(1) \<open>x = b\<close> insertedAfter.here [of b new pre post] show ?thesis by simp
  next
    case True
    then have miss: "\<forall>x\<in>set (y # ys). block_id x \<noteq> block_id b" by (simp only: findIndex_none)
    note eq = insertAfterRecursive_miss [OF miss, of new]
    from miss Cons.prems(2) consider (below) "b \<in> set (allBlocks (childrenOf y))"
      | (after) "b \<in> set (allBlocks ys)" by auto
    then show ?thesis
    proof cases
      case below
      then obtain j tt ch where y: "y = GroupBlock j tt ch" by (cases y) auto
      from below have "block_id b \<in> set (allIds (childrenOf y))" by (auto simp: allIds_def)
      with Cons.prems(1) have "block_id b \<notin> set (allIds ys)" by auto
      then have ys: "insertAfterRecursive b new ys = ys" by (rule insertAfterRecursive_absent)
      from Cons.prems(1) have "distinct (allIds (childrenOf y))" by simp
      from Cons.IH(1) [OF this below] y have "insertedAfter b new ch (insertAfterRecursive b new ch)" by simp
      from insertedAfter.inside [OF this, of "[]" j tt ys] eq y ys show ?thesis by simp
    next
      case after
      then have "block_id b \<in> set (allIds ys)" by (auto simp: allIds_def)
      with Cons.prems(1) have "block_id b \<notin> set (allIds (childrenOf y))" by auto
      then have ch: "insertAfterRecursive b new (childrenOf y) = childrenOf y"
        by (rule insertAfterRecursive_absent)
      from Cons.prems(1) have "distinct (allIds ys)" by simp
      from Cons.IH(2) [OF this after] have "insertedAfter b new ys (insertAfterRecursive b new ys)" .
      from insertedAfter_Cons [OF this, of y] eq ch show ?thesis
        by (cases y) simp_all
    qed
  qed
qed

lemma duplicate_ids:
  "duplicateBlockHelper gen b n = (b', n') \<Longrightarrow>
     n' = n + countBlocks [b] \<and> allIds [b'] = map gen [n ..< n'] \<and> stripIds b' = stripIds b"
  "duplicateChildren gen bs n = (bs', m') \<Longrightarrow>
     m' = n + countBlocks bs \<and> allIds bs' = map gen [n ..< m'] \<and> map stripIds bs' = map stripIds bs"
proof (induction gen b n and gen bs n arbitrary: b' n' and bs' m' rule: duplicateBlockHelper_duplicateChildren.induct)
  case (1 gen i t ch n)
  obtain ch' k where d: "duplicateChildren gen ch (Suc n) = (ch', k)" by force
  from "1.IH" [OF refl d] have "k = Suc n + countBlocks ch" "allIds ch' = map gen [Suc n ..< k]"
    "map stripIds ch' = map stripIds ch" by simp_all
  with "1.prems" d show ?case by (auto simp: upt_conv_Cons)
next
  case (7 gen b bs n)
  obtain c n1 where c: "duplicateBlockHelper gen b n = (c, n1)" by force
  obtain cs n2 where cs: "duplicateChildren gen bs n1 = (cs, n2)" by force
  from "7.IH"(1) [OF c] have 1: "n1 = n + countBlocks [b]" "allIds [c] = map gen [n ..< n1]" "stripIds c = stripIds b"
    by simp_all
  from "7.IH"(2) [OF c [symmetric] refl cs] have 2: "n2 = n1 + countBlocks bs" "allIds cs = map gen [n1 ..< n2]"
    "map stripIds cs = map stripIds bs" by simp_all
  have "[n ..< n2] = [n ..< n1] @ [n1 ..< n2]" using 1(1) 2(1) by (metis le_add1 upt_add_eq_append)
  with "7.prems" c cs 1 2 show ?case by (auto simp: )
qed (auto simp: upt_conv_Cons)


text \<open>
  Claim C4. Take a tree with unique identifiers, a block of it, and a run of generated
  identifiers that are pairwise different and new to the tree. Then \<open>duplicateBlock\<close>
  inserts the copy immediately after the block, in the list that holds the block; the
  copy's identifier differs from the block's, no identifier inside the copy occurs in the
  tree (so the descendants of a copied group share no identifier with the descendants of
  the original), and copy and original agree on all fields but the identifiers.
\<close>

theorem duplicateBlock_inserts_copy:
  "distinct (allIds (ws_blocks prev)) \<and> block \<in> set (allBlocks (ws_blocks prev))
   \<and> distinct (map gen [n ..< n + countBlocks [block]])
   \<and> set (map gen [n ..< n + countBlocks [block]]) \<inter> set (allIds (ws_blocks prev)) = {}
   \<longrightarrow> (let copy = fst (duplicateBlockHelper gen block n) in
          insertedAfter block copy (ws_blocks prev) (ws_blocks (duplicateBlock gen n block prev))
        \<and> block_id copy \<noteq> block_id block
        \<and> set (allIds (childrenOf copy)) \<inter> set (allIds (childrenOf block)) = {}
        \<and> set (allIds [copy]) \<inter> set (allIds (ws_blocks prev)) = {}
        \<and> distinct (allIds [copy])
        \<and> stripIds copy = stripIds block)"
proof (intro impI, elim conjE)
  assume d: "distinct (allIds (ws_blocks prev))" and b: "block \<in> set (allBlocks (ws_blocks prev))"
    and g: "distinct (map gen [n ..< n + countBlocks [block]])"
    and f: "set (map gen [n ..< n + countBlocks [block]]) \<inter> set (allIds (ws_blocks prev)) = {}"
  obtain copy n' where c: "duplicateBlockHelper gen block n = (copy, n')" by force
  from duplicate_ids(1) [OF c] have n': "n' = n + countBlocks [block]"
    and ids: "allIds [copy] = map gen [n ..< n']" and s: "stripIds copy = stripIds block" by simp_all
  from ids n' f have fresh: "set (allIds [copy]) \<inter> set (allIds (ws_blocks prev)) = {}" by simp
  from subtree_ids [OF b] have sub: "set (block_id block # allIds (childrenOf block)) \<subseteq> set (allIds (ws_blocks prev))" .
  from fresh sub have 1: "block_id copy \<noteq> block_id block" by auto
  from fresh sub have 2: "set (allIds (childrenOf copy)) \<inter> set (allIds (childrenOf block)) = {}" by auto
  from ids n' g have 3: "distinct (allIds [copy])" by simp
  from insertAfterRecursive_inserts [OF d b, of copy] c
  have 4: "insertedAfter block copy (ws_blocks prev) (ws_blocks (duplicateBlock gen n block prev))"
    by (simp add: duplicateBlock_def)
  from 1 2 3 4 fresh s c show "let copy = fst (duplicateBlockHelper gen block n) in
          insertedAfter block copy (ws_blocks prev) (ws_blocks (duplicateBlock gen n block prev))
        \<and> block_id copy \<noteq> block_id block
        \<and> set (allIds (childrenOf copy)) \<inter> set (allIds (childrenOf block)) = {}
        \<and> set (allIds [copy]) \<inter> set (allIds (ws_blocks prev)) = {}
        \<and> distinct (allIds [copy])
        \<and> stripIds copy = stripIds block"
    by (simp add: Let_def)
qed

theorem duplicateBlock_inserts_copy_witness:
  "distinct (allIds (ws_blocks (sheet [GroupBlock [6] None [GroupBlock [7] None [TextBlock [1] [], TextBlock [2] []]], TextBlock [5] []])))
   \<and> GroupBlock [7] None [TextBlock [1] [], TextBlock [2] []]
       \<in> set (allBlocks (ws_blocks (sheet [GroupBlock [6] None [GroupBlock [7] None [TextBlock [1] [], TextBlock [2] []]], TextBlock [5] []])))
   \<and> distinct (map (\<lambda>k. [100 + k]) [0 ..< 0 + countBlocks [GroupBlock [7] None [TextBlock [1] [], TextBlock [2] []]]])
   \<and> set (map (\<lambda>k. [100 + k]) [0 ..< 0 + countBlocks [GroupBlock [7] None [TextBlock [1] [], TextBlock [2] []]]])
       \<inter> set (allIds (ws_blocks (sheet [GroupBlock [6] None [GroupBlock [7] None [TextBlock [1] [], TextBlock [2] []]], TextBlock [5] []]))) = {}
   \<and> fst (duplicateBlockHelper (\<lambda>k. [100 + k]) (GroupBlock [7] None [TextBlock [1] [], TextBlock [2] []]) 0)
       = GroupBlock [100] None [TextBlock [101] [], TextBlock [102] []]
   \<and> insertedAfter (GroupBlock [7] None [TextBlock [1] [], TextBlock [2] []])
        (GroupBlock [100] None [TextBlock [101] [], TextBlock [102] []])
        (ws_blocks (sheet [GroupBlock [6] None [GroupBlock [7] None [TextBlock [1] [], TextBlock [2] []]], TextBlock [5] []]))
        (ws_blocks (duplicateBlock (\<lambda>k. [100 + k]) 0 (GroupBlock [7] None [TextBlock [1] [], TextBlock [2] []])
           (sheet [GroupBlock [6] None [GroupBlock [7] None [TextBlock [1] [], TextBlock [2] []]], TextBlock [5] []])))
   \<and> ws_blocks (duplicateBlock (\<lambda>k. [100 + k]) 0 (GroupBlock [7] None [TextBlock [1] [], TextBlock [2] []])
           (sheet [GroupBlock [6] None [GroupBlock [7] None [TextBlock [1] [], TextBlock [2] []]], TextBlock [5] []]))
       = [GroupBlock [6] None [GroupBlock [7] None [TextBlock [1] [], TextBlock [2] []],
                               GroupBlock [100] None [TextBlock [101] [], TextBlock [102] []]],
          TextBlock [5] []]"
proof -
  have u: "[0 ..< 3] = [0, 1, 2]" by (simp add: upt_rec)
  have r: "ws_blocks (duplicateBlock (\<lambda>k. [100 + k]) 0 (GroupBlock [7] None [TextBlock [1] [], TextBlock [2] []])
           (sheet [GroupBlock [6] None [GroupBlock [7] None [TextBlock [1] [], TextBlock [2] []]], TextBlock [5] []]))
       = [GroupBlock [6] None [GroupBlock [7] None [TextBlock [1] [], TextBlock [2] []],
                               GroupBlock [100] None [TextBlock [101] [], TextBlock [102] []]],
          TextBlock [5] []]"
    by code_simp
  show ?thesis
    using duplicateBlock_inserts_copy [of
      "sheet [GroupBlock [6] None [GroupBlock [7] None [TextBlock [1] [], TextBlock [2] []]], TextBlock [5] []]"
      "GroupBlock [7] None [TextBlock [1] [], TextBlock [2] []]" "\<lambda>k. [100 + k]" 0]
    unfolding r
    by (simp add: sheet_def u Let_def)
qed

section \<open>Page breaks stay at the root: proofs\<close>

lemma dividerFree_simps [simp]:
  "dividerFree []"
  "dividerFree (b # bs) \<longleftrightarrow> block_type b \<noteq> TDivider \<and> dividerFree (childrenOf b) \<and> dividerFree bs"
  by (auto simp: dividerFree_def)

lemma dividerFree_append [simp]: "dividerFree (xs @ ys) \<longleftrightarrow> dividerFree xs \<and> dividerFree ys"
  by (auto simp: dividerFree_def allBlocks_append)

lemma rootOnly_simps [simp]:
  "rootOnly []"
  "rootOnly (b # bs) \<longleftrightarrow> dividerFree (childrenOf b) \<and> rootOnly bs"
  "rootOnly (xs @ ys) \<longleftrightarrow> rootOnly xs \<and> rootOnly ys"
  by (auto simp: rootOnly_def)

lemma dividerFree_rootOnly: "dividerFree t \<Longrightarrow> rootOnly t"
  by (induction t) auto

lemma dividerFree_member: "dividerFree t \<Longrightarrow> b \<in> set (allBlocks t) \<Longrightarrow> block_type b \<noteq> TDivider \<and> dividerFree (childrenOf b)"
proof (induction t rule: blocks_induct)
  case Nil
  then show ?case by simp
next
  case (Cons x xs)
  from Cons.prems(2) consider "b = x" | "b \<in> set (allBlocks (childrenOf x))" | "b \<in> set (allBlocks xs)" by auto
  then show ?case using Cons by cases auto
qed

lemma rootOnly_member: "rootOnly t \<Longrightarrow> b \<in> set (allBlocks t) \<Longrightarrow> dividerFree (childrenOf b)"
proof (induction t)
  case Nil
  then show ?case by simp
next
  case (Cons x xs)
  from Cons.prems(2) consider "b = x" | "b \<in> set (allBlocks (childrenOf x))" | "b \<in> set (allBlocks xs)" by auto
  then show ?case using Cons dividerFree_member [of "childrenOf x" b] by cases auto
qed

lemma rootOnly_divider_at_root:
  "rootOnly t \<Longrightarrow> b \<in> set (allBlocks t) \<Longrightarrow> block_type b = TDivider \<Longrightarrow> b \<in> set t"
proof (induction t)
  case Nil
  then show ?case by simp
next
  case (Cons x xs)
  from Cons.prems(2) consider "b = x" | "b \<in> set (allBlocks (childrenOf x))" | "b \<in> set (allBlocks xs)" by auto
  then show ?case using Cons dividerFree_member [of "childrenOf x" b] by cases auto
qed

lemma dividerFree_remove: "dividerFree t \<Longrightarrow> dividerFree (removeBlockRecursive t i)"
  by (induction t rule: blocks_induct) (auto simp: removeBlockRecursive_Cons split: Block.splits)

lemma rootOnly_remove: "rootOnly t \<Longrightarrow> rootOnly (removeBlockRecursive t i)"
  by (induction t) (auto simp: removeBlockRecursive_Cons dividerFree_remove split: Block.splits)

lemma dividerFree_update:
  "dividerFree t \<Longrightarrow> dividerFree [new] \<Longrightarrow> dividerFree (updateRecursive i new t)"
  by (induction t rule: blocks_induct) (auto simp: updateRecursive_Cons split: Block.splits)

lemma rootOnly_update:
  "rootOnly t \<Longrightarrow> dividerFree [new] \<Longrightarrow> rootOnly (updateRecursive i new t)"
  by (induction t) (auto simp: updateRecursive_Cons dividerFree_update split: Block.splits)

lemma splice_insert_conv: "\<exists>k. splice_insert xs start x = take k xs @ x # drop k xs"
  by (auto simp: splice_insert_def Let_def)

lemma dividerFree_take_drop: "dividerFree xs \<Longrightarrow> dividerFree (take k xs) \<and> dividerFree (drop k xs)"
  by (metis append_take_drop_id dividerFree_append)

lemma rootOnly_take_drop: "rootOnly xs \<Longrightarrow> rootOnly (take k xs) \<and> rootOnly (drop k xs)"
  by (metis append_take_drop_id rootOnly_simps(3))

lemma dividerFree_splice: "dividerFree xs \<Longrightarrow> dividerFree [x] \<Longrightarrow> dividerFree (splice_insert xs start x)"
  using splice_insert_conv [of xs start x] dividerFree_take_drop [of xs] by auto

lemma rootOnly_splice: "rootOnly xs \<Longrightarrow> dividerFree (childrenOf x) \<Longrightarrow> rootOnly (splice_insert xs start x)"
  using splice_insert_conv [of xs start x] rootOnly_take_drop [of xs] by auto

lemma insertBlockAt_falsy: "\<not> truthy p \<Longrightarrow> insertBlockAt t p k x = splice_insert t (safeIndex k t) x"
  by (simp add: insertBlockAt.simps)

lemma insertBlockAt_Nil [simp]: "truthy p \<Longrightarrow> insertBlockAt [] p k x = []"
  by (simp add: insertBlockAt.simps)

lemma insertBlockAt_Cons:
  "truthy p \<Longrightarrow> insertBlockAt (b # bs) p k x =
     (case b of
        GroupBlock i t ch \<Rightarrow>
          (if Some i = p then GroupBlock i t (splice_insert ch (safeIndex k ch) x)
           else GroupBlock i t (insertBlockAt ch p k x))
      | _ \<Rightarrow> b) # insertBlockAt bs p k x"
  by (simp add: insertBlockAt.simps [of "b # bs"] insertBlockAt.simps [of bs])

lemma dividerFree_insertBlockAt:
  "truthy p \<Longrightarrow> dividerFree t \<Longrightarrow> dividerFree [x] \<Longrightarrow> dividerFree (insertBlockAt t p k x)"
  by (induction t rule: blocks_induct)
     (auto simp: insertBlockAt_Cons dividerFree_splice split: Block.splits)

lemma rootOnly_insertBlockAt_truthy:
  "truthy p \<Longrightarrow> rootOnly t \<Longrightarrow> dividerFree [x] \<Longrightarrow> rootOnly (insertBlockAt t p k x)"
  by (induction t)
     (auto simp: insertBlockAt_Cons dividerFree_splice dividerFree_insertBlockAt split: Block.splits)


lemma dividerFree_iff: "dividerFree t \<longleftrightarrow> (\<forall>x\<in>set t. block_type x \<noteq> TDivider \<and> dividerFree (childrenOf x))"
  by (induction t) auto

lemma block_type_stripIds [simp]: "block_type (stripIds b) = block_type b"
  by (cases b) simp_all

lemma childrenOf_stripIds [simp]: "childrenOf (stripIds b) = map stripIds (childrenOf b)"
  by (cases b) simp_all

lemma dividerFree_stripIds: "dividerFree (map stripIds t) = dividerFree t"
  by (induction t rule: blocks_induct) simp_all

lemma stripIds_same_shape:
  assumes "stripIds a = stripIds b"
  shows "block_type a = block_type b" and "dividerFree (childrenOf a) = dividerFree (childrenOf b)"
proof -
  from assms have "block_type (stripIds a) = block_type (stripIds b)" by simp
  then show "block_type a = block_type b" by simp
  from assms have "childrenOf (stripIds a) = childrenOf (stripIds b)" by simp
  then have "dividerFree (map stripIds (childrenOf a)) = dividerFree (map stripIds (childrenOf b))" by simp
  then show "dividerFree (childrenOf a) = dividerFree (childrenOf b)" by (simp add: dividerFree_stripIds)
qed

lemma dividerFree_insertAfter:
  "dividerFree t \<Longrightarrow> dividerFree [new] \<Longrightarrow> dividerFree (insertAfterRecursive b new t)"
proof (induction b new t rule: insertAfterRecursive.induct)
  case (1 block newBlock blocks)
  show ?case
  proof (cases "findIndex (\<lambda>b. block_id b = block_id block) blocks = - 1")
    case False
    with 1(2,3) show ?thesis
      by (subst insertAfterRecursive.simps) (simp add: Let_def dividerFree_splice)
  next
    case True
    have "\<forall>x\<in>set blocks. block_type x \<noteq> TDivider \<and>
        dividerFree (childrenOf (case x of GroupBlock i t ch \<Rightarrow> GroupBlock i t (insertAfterRecursive block newBlock ch) | _ \<Rightarrow> x))"
    proof
      fix x assume x: "x \<in> set blocks"
      with 1(2) have t: "block_type x \<noteq> TDivider" "dividerFree (childrenOf x)"
        by (simp_all add: dividerFree_iff [of blocks])
      show "block_type x \<noteq> TDivider \<and>
        dividerFree (childrenOf (case x of GroupBlock i t ch \<Rightarrow> GroupBlock i t (insertAfterRecursive block newBlock ch) | _ \<Rightarrow> x))"
      proof (cases x)
        case (GroupBlock i tt ch)
        with t have "dividerFree ch" by simp
        from 1(1) [OF refl _ x GroupBlock this 1(3)] True
        have "dividerFree (insertAfterRecursive block newBlock ch)" by simp
        with GroupBlock t show ?thesis by simp
      qed (use t in simp_all)
    qed
    then have "dividerFree (map (\<lambda>x. case x of GroupBlock i t ch \<Rightarrow> GroupBlock i t (insertAfterRecursive block newBlock ch) | _ \<Rightarrow> x) blocks)"
      by (subst dividerFree_iff) (auto split: Block.splits)
    with True show ?thesis
      by (subst insertAfterRecursive.simps) (simp add: Let_def)
  qed
qed

lemma rootOnly_insertAfter:
  assumes "rootOnly t" and "dividerFree (childrenOf new)"
    and "block_type new = TDivider \<longrightarrow> (\<exists>x\<in>set t. block_id x = block_id b)"
  shows "rootOnly (insertAfterRecursive b new t)"
proof (cases "findIndex (\<lambda>x. block_id x = block_id b) t = - 1")
  case False
  with assms(1,2) show ?thesis
    by (subst insertAfterRecursive.simps) (simp add: Let_def rootOnly_splice)
next
  case True
  with assms(3) have "block_type new \<noteq> TDivider" by (auto simp: findIndex_none)
  with assms(2) have n: "dividerFree [new]" by simp
  have "\<forall>x\<in>set t.
        dividerFree (childrenOf (case x of GroupBlock i t ch \<Rightarrow> GroupBlock i t (insertAfterRecursive b new ch) | _ \<Rightarrow> x))"
  proof
    fix x assume "x \<in> set t"
    with assms(1) have "dividerFree (childrenOf x)" by (simp add: rootOnly_def)
    then show "dividerFree (childrenOf (case x of GroupBlock i t ch \<Rightarrow> GroupBlock i t (insertAfterRecursive b new ch) | _ \<Rightarrow> x))"
    proof (cases x)
      case (GroupBlock i tt ch)
      assume "dividerFree (childrenOf x)"
      with GroupBlock have "dividerFree ch" by simp
      from dividerFree_insertAfter [OF this n] GroupBlock show ?thesis by simp
    qed simp_all
  qed
  then have "rootOnly (map (\<lambda>x. case x of GroupBlock i t ch \<Rightarrow> GroupBlock i t (insertAfterRecursive b new ch) | _ \<Rightarrow> x) t)"
    by (simp add: rootOnly_def)
  with True show ?thesis
    by (subst insertAfterRecursive.simps) (simp add: Let_def)
qed

lemma rootOnly_duplicate:
  assumes "rootOnly t" and "b \<in> set (allBlocks t)"
  shows "rootOnly (insertAfterRecursive b (fst (duplicateBlockHelper gen b n)) t)"
proof -
  obtain c n' where c: "duplicateBlockHelper gen b n = (c, n')" by force
  from duplicate_ids(1) [OF c] have s: "stripIds c = stripIds b" by simp
  from rootOnly_member [OF assms] stripIds_same_shape [OF s]
  have 1: "dividerFree (childrenOf c)" and ty: "block_type c = block_type b" by simp_all
  have 2: "block_type c = TDivider \<longrightarrow> (\<exists>x\<in>set t. block_id x = block_id b)"
    using rootOnly_divider_at_root [OF assms] ty by auto
  from rootOnly_insertAfter [OF assms(1) 1 2] c show ?thesis by simp
qed

lemma findBlock_Some: "findBlock t i = Some b \<Longrightarrow> b \<in> set (allBlocks t) \<and> block_id b = i"
  by (induction t rule: blocks_induct) (auto split: Block.splits option.splits if_splits)

lemma childrenOf_createBlock [simp]: "childrenOf (createBlock i ty qt) = []"
  by (simp add: createBlock_def)

lemma block_type_createBlock [simp]: "block_type (createBlock i ty qt) = ty"
  by (cases ty) (simp_all add: createBlock_def)

lemma movingBlockOf_rootOnly:
  assumes "rootOnly t" and "movingBlockOf item newId t = Some (mb, cur)"
  shows "dividerFree (childrenOf mb) \<and> rootOnly cur"
proof (cases "item_type item = DragNewBlock")
  case True
  with assms show ?thesis by (auto simp: movingBlockOf_def split: option.splits)
next
  case False
  with assms(2) obtain ident where "findBlock t ident = Some mb" "cur = removeBlockRecursive t ident"
    by (auto simp: movingBlockOf_def split: option.splits)
  with assms(1) findBlock_Some [of t ident mb] show ?thesis
    by (simp add: rootOnly_member rootOnly_remove)
qed

lemma rootOnly_handleDragDrop:
  assumes "rootOnly (ws_blocks prev)"
  shows "rootOnly (ws_blocks (handleDragDrop item targetId targetParentId targetIndex newId prev))"
proof (cases "movingBlockOf item newId (ws_blocks prev)")
  case None
  with assms show ?thesis by (simp add: handleDragDrop_def)
next
  case (Some r)
  obtain mb cur where r: "r = (mb, cur)" by force
  from movingBlockOf_rootOnly [OF assms Some [unfolded r]] have mb: "dividerFree (childrenOf mb)" "rootOnly cur"
    by simp_all
  show ?thesis
  proof (cases "block_type mb = TDivider \<and> truthy targetParentId")
    case True
    with Some r assms show ?thesis by (simp add: handleDragDrop_def)
  next
    case False
    show ?thesis
    proof (cases "truthy targetParentId")
      case True
      with False have nd: "block_type mb \<noteq> TDivider" by simp
      with mb have "dividerFree [mb]" by simp
      from rootOnly_insertBlockAt_truthy [OF True mb(2) this] Some r nd show ?thesis
        by (simp add: handleDragDrop_def Let_def)
    next
      case f: False
      with Some r mb show ?thesis
        by (simp add: handleDragDrop_def Let_def insertBlockAt_falsy rootOnly_splice)
    qed
  qed
qed

lemma reachable_rootOnly: "reachable d \<Longrightarrow> rootOnly (ws_blocks d)"
proof (induction rule: reachable.induct)
  case initial
  show ?case by (simp add: initialData_def)
next
  case (update d block newData)
  from rootOnly_member [OF update.IH update.hyps(2)] update.hyps(3,4)
  have "dividerFree [newData]" by (simp add: editOf_def)
  with update.IH show ?case by (simp add: updateBlock_def rootOnly_update)
next
  case (duplicate d block gen n)
  then show ?case by (simp add: duplicateBlock_def rootOnly_duplicate)
next
  case (drop d item targetId targetParentId targetIndex newId)
  from drop.IH show ?case by (rule rootOnly_handleDragDrop)
qed (simp_all add: addBlock_def removeBlock_def rootOnly_remove)

lemma rootOnly_groups:
  "rootOnly t \<Longrightarrow> GroupBlock i tt ch \<in> set (allBlocks t) \<Longrightarrow> c \<in> set ch \<Longrightarrow> block_type c \<noteq> TDivider"
  using rootOnly_member [of t "GroupBlock i tt ch"] by (simp add: dividerFree_iff [of ch])


lemma createBlock_group: "createBlock i TGroup qt = GroupBlock i (Some (js ''New Group'')) []"
  by (simp add: createBlock_def)

text \<open>
  Claim C8, amended. In every document the editor can reach, no group at any depth has a
  page break among its children. \<open>handleDragDrop\<close> returns the document unchanged when
  the dragged block, new or existing, is a page break and \<open>targetParentId\<close> is a
  non-empty string; the drop zone of a group never accepts a page break.
\<close>

theorem no_divider_in_group:
  "(reachable d \<and> GroupBlock i t ch \<in> set (allBlocks (ws_blocks d)) \<and> c \<in> set ch
      \<longrightarrow> block_type c \<noteq> TDivider)
   \<and> (truthy targetParentId \<and> item_type item = DragNewBlock \<and> payload item = Some pl
        \<and> payload_type pl = TDivider
      \<longrightarrow> handleDragDrop item targetId targetParentId targetIndex newId prev = prev)
   \<and> (truthy targetParentId \<and> item_type item' = DragBlock \<and> item_id item' = Some ident
        \<and> findBlock (ws_blocks prev) ident = Some b \<and> block_type b = TDivider
      \<longrightarrow> handleDragDrop item' targetId targetParentId targetIndex newId prev = prev)
   \<and> \<not> canDropInGroup (Some TDivider) depth"
proof (intro conjI impI)
  assume "reachable d \<and> GroupBlock i t ch \<in> set (allBlocks (ws_blocks d)) \<and> c \<in> set ch"
  then show "block_type c \<noteq> TDivider"
    using rootOnly_groups [OF reachable_rootOnly, of d i t ch c] by simp
next
  assume "truthy targetParentId \<and> item_type item = DragNewBlock \<and> payload item = Some pl
        \<and> payload_type pl = TDivider"
  then show "handleDragDrop item targetId targetParentId targetIndex newId prev = prev"
    by (simp add: handleDragDrop_def movingBlockOf_def)
next
  assume "truthy targetParentId \<and> item_type item' = DragBlock \<and> item_id item' = Some ident
        \<and> findBlock (ws_blocks prev) ident = Some b \<and> block_type b = TDivider"
  then show "handleDragDrop item' targetId targetParentId targetIndex newId prev = prev"
    by (simp add: handleDragDrop_def movingBlockOf_def)
next
  show "\<not> canDropInGroup (Some TDivider) depth"
    by (simp add: canDropInGroup_def)
qed

theorem no_divider_in_group_witness:
  "reachable (handleDragDrop (handleDragStart TText None) None (Some [1]) (Some 0) [2]
               (addBlock [1] TGroup None initialData))
   \<and> GroupBlock [1] (Some (js ''New Group'')) [createBlock [2] TText None]
        \<in> set (allBlocks (ws_blocks (handleDragDrop (handleDragStart TText None) None (Some [1]) (Some 0) [2]
               (addBlock [1] TGroup None initialData))))
   \<and> createBlock [2] TText None \<in> set [createBlock [2] TText None]
   \<and> block_type (createBlock [2] TText None) \<noteq> TDivider
   \<and> truthy (Some [1])
   \<and> item_type (handleDragStart TDivider None) = DragNewBlock
   \<and> handleDragDrop (handleDragStart TDivider None) None (Some [1]) (Some 0) [3]
        (sheet [GroupBlock [1] None []]) = sheet [GroupBlock [1] None []]
   \<and> findBlock (ws_blocks (sheet [GroupBlock [1] None [], DividerBlock [9]])) [9] = Some (DividerBlock [9])
   \<and> handleDragDrop (onBadgeDragStart (DividerBlock [9]) 1 None) None (Some [1]) (Some 0) [3]
        (sheet [GroupBlock [1] None [], DividerBlock [9]]) = sheet [GroupBlock [1] None [], DividerBlock [9]]"
proof -
  let ?d = "handleDragDrop (handleDragStart TText None) None (Some [1]) (Some 0) [2]
               (addBlock [1] TGroup None initialData)"
  have r: "reachable ?d"
    by (intro reachable.drop reachable.add reachable.initial)
  have b: "ws_blocks ?d = [GroupBlock [1] (Some (js ''New Group'')) [createBlock [2] TText None]]"
    by (simp add: handleDragDrop_def movingBlockOf_def handleDragStart_def addBlock_def initialData_def
        finalIndexOf_def insertBlockAt_Cons splice_insert_def splice_start_def safeIndex_def
        createBlock_group)
  show ?thesis
    using no_divider_in_group [of ?d "[1]" "Some (js ''New Group'')" "[createBlock [2] TText None]"
        "createBlock [2] TText None" "Some [1]" "handleDragStart TDivider None"
        "\<lparr> payload_type = TDivider, payload_qType = None \<rparr>" None "Some 0" "[3]" "sheet [GroupBlock [1] None []]"]
      no_divider_in_group [of ?d "[1]" "Some (js ''New Group'')" "[createBlock [2] TText None]"
        "createBlock [2] TText None" "Some [1]" "handleDragStart TDivider None"
        "\<lparr> payload_type = TDivider, payload_qType = None \<rparr>" None "Some 0" "[3]"
        "sheet [GroupBlock [1] None [], DividerBlock [9]]" "onBadgeDragStart (DividerBlock [9]) 1 None"
        "[9]" "DividerBlock [9]"]
      r
    unfolding b
    by (simp add: handleDragStart_def onBadgeDragStart_def sheet_def)
qed

text \<open>
  The guard of \<open>handleDragDrop\<close> tests the truth value of \<open>targetParentId\<close>, and the
  empty string is falsy. A page break dropped with the parent identifier \<open>""\<close>, here the
  identifier of a group of the document, is moved to the root position 0: the document
  changes.
\<close>

theorem divider_drop_empty_parent_counterexample:
  "findBlock (ws_blocks (sheet [GroupBlock [] None [], DividerBlock [9]])) [9] = Some (DividerBlock [9])
   \<and> handleDragDrop (onBadgeDragStart (DividerBlock [9]) 1 None) None (Some []) (Some 0) [3]
        (sheet [GroupBlock [] None [], DividerBlock [9]])
       = sheet [DividerBlock [9], GroupBlock [] None []]
   \<and> handleDragDrop (onBadgeDragStart (DividerBlock [9]) 1 None) None (Some []) (Some 0) [3]
        (sheet [GroupBlock [] None [], DividerBlock [9]])
       \<noteq> sheet [GroupBlock [] None [], DividerBlock [9]]"
  by (simp add: handleDragDrop_def movingBlockOf_def onBadgeDragStart_def sheet_def
      removeBlockRecursive_Cons finalIndexOf_def insertBlockAt_falsy splice_insert_def
      splice_start_def safeIndex_def)

section \<open>A drop into a group that does not exist\<close>

lemma groupIds_simps [simp]:
  "groupIds [] = []"
  "groupIds (b # bs) = (if block_type b = TGroup then [block_id b] else []) @ groupIds (childrenOf b) @ groupIds bs"
  by (simp_all add: groupIds_def)

lemma insertBlockAt_no_group:
  "p \<noteq> [] \<Longrightarrow> p \<notin> set (groupIds t) \<Longrightarrow> insertBlockAt t (Some p) k x = t"
  by (induction t rule: blocks_induct) (auto simp: insertBlockAt_Cons split: Block.splits)

lemma groupIds_remove: "set (groupIds (removeBlockRecursive t i)) \<subseteq> set (groupIds t)"
  by (induction t rule: blocks_induct) (auto simp: removeBlockRecursive_Cons split: Block.splits)

lemma countBlocks_remove_le: "countBlocks (removeBlockRecursive t i) \<le> countBlocks t"
  by (induction t rule: blocks_induct) (auto simp: removeBlockRecursive_Cons split: Block.splits)

lemma countBlocks_remove_found:
  "findBlock t i = Some b \<Longrightarrow> countBlocks (removeBlockRecursive t i) + countBlocks [b] \<le> countBlocks t"
proof (induction t rule: blocks_induct)
  case Nil
  then show ?case by simp
next
  case (Cons x xs)
  show ?case
  proof (cases "block_id x = i")
    case True
    with Cons.prems have "b = x" by simp
    with True countBlocks_remove_le [of xs i] show ?thesis by (simp add: removeBlockRecursive_Cons)
  next
    case False
    show ?thesis
    proof (cases "findBlock (childrenOf x) i")
      case (Some c)
      with False Cons.prems have "c = b" by (cases x) simp_all
      with Some Cons.IH(1) have "countBlocks (removeBlockRecursive (childrenOf x) i) + countBlocks [b] \<le> countBlocks (childrenOf x)"
        by simp
      with False countBlocks_remove_le [of xs i] show ?thesis
        by (cases x) (simp_all add: removeBlockRecursive_Cons)
    next
      case None
      with False Cons.prems have "findBlock xs i = Some b" by (cases x) simp_all
      from Cons.IH(2) [OF this] False countBlocks_remove_le [of "childrenOf x" i] show ?thesis
        by (cases x) (simp_all add: removeBlockRecursive_Cons)
    qed
  qed
qed

text \<open>
  Claim C10, amended. An existing block that is not a page break is dropped with a
  non-empty \<open>targetParentId\<close> that no group of the tree carries. Then the new list of
  blocks is the old one with the block removed: \<open>insertBlockAt\<close> finds no group and
  inserts nothing. The identifier is no longer found, the number of blocks drops by at
  least the size of the dragged block with its descendants, and the document changes.
\<close>

theorem drop_into_missing_group_loses_block:
  "item_type item = DragBlock \<and> item_id item = Some ident
   \<and> findBlock (ws_blocks prev) ident = Some b \<and> block_type b \<noteq> TDivider
   \<and> p \<noteq> [] \<and> p \<notin> set (groupIds (ws_blocks prev))
   \<longrightarrow> (let result = handleDragDrop item targetId (Some p) targetIndex newId prev in
          ws_blocks result = removeBlockRecursive (ws_blocks prev) ident
        \<and> findBlock (ws_blocks result) ident = None
        \<and> countBlocks (ws_blocks result) + countBlocks [b] \<le> countBlocks (ws_blocks prev)
        \<and> countBlocks (ws_blocks result) < countBlocks (ws_blocks prev)
        \<and> result \<noteq> prev)"
proof (intro impI, elim conjE)
  assume a: "item_type item = DragBlock" "item_id item = Some ident"
    "findBlock (ws_blocks prev) ident = Some b" "block_type b \<noteq> TDivider" "p \<noteq> []"
    "p \<notin> set (groupIds (ws_blocks prev))"
  let ?cur = "removeBlockRecursive (ws_blocks prev) ident"
  let ?result = "handleDragDrop item targetId (Some p) targetIndex newId prev"
  from a(6) groupIds_remove [of "ws_blocks prev" ident] have "p \<notin> set (groupIds ?cur)" by auto
  from insertBlockAt_no_group [OF a(5) this]
  have r: "ws_blocks ?result = ?cur"
    using a(1-4) by (simp add: handleDragDrop_def movingBlockOf_def Let_def)
  from allIds_removeBlockRecursive [of "ws_blocks prev" ident]
  have f: "findBlock ?cur ident = None" by (auto simp: findBlock_None_iff)
  from countBlocks_remove_found [OF a(3)]
  have c: "countBlocks ?cur + countBlocks [b] \<le> countBlocks (ws_blocks prev)" .
  then have lt: "countBlocks ?cur < countBlocks (ws_blocks prev)" by simp
  then have "?result \<noteq> prev" using r by auto
  with r f c lt show "let result = ?result in
          ws_blocks result = removeBlockRecursive (ws_blocks prev) ident
        \<and> findBlock (ws_blocks result) ident = None
        \<and> countBlocks (ws_blocks result) + countBlocks [b] \<le> countBlocks (ws_blocks prev)
        \<and> countBlocks (ws_blocks result) < countBlocks (ws_blocks prev)
        \<and> result \<noteq> prev"
    by (simp add: Let_def)
qed

theorem drop_into_missing_group_loses_block_witness:
  "findBlock (ws_blocks (sheet [GroupBlock [1] None [TextBlock [2] []], TextBlock [3] []])) [1]
     = Some (GroupBlock [1] None [TextBlock [2] []])
   \<and> [7] \<notin> set (groupIds (ws_blocks (sheet [GroupBlock [1] None [TextBlock [2] []], TextBlock [3] []])))
   \<and> ws_blocks (handleDragDrop (onBadgeDragStart (GroupBlock [1] None [TextBlock [2] []]) 0 None)
         None (Some [7]) (Some 0) []
         (sheet [GroupBlock [1] None [TextBlock [2] []], TextBlock [3] []]))
       = [TextBlock [3] []]
   \<and> findBlock (ws_blocks (handleDragDrop (onBadgeDragStart (GroupBlock [1] None [TextBlock [2] []]) 0 None)
         None (Some [7]) (Some 0) []
         (sheet [GroupBlock [1] None [TextBlock [2] []], TextBlock [3] []]))) [1] = None"
  using drop_into_missing_group_loses_block [of "onBadgeDragStart (GroupBlock [1] None [TextBlock [2] []]) 0 None"
      "[1]" "sheet [GroupBlock [1] None [TextBlock [2] []], TextBlock [3] []]"
      "GroupBlock [1] None [TextBlock [2] []]" "[7]" None "Some 0" "[]"]
  by (simp add: onBadgeDragStart_def sheet_def Let_def removeBlockRecursive_Cons)

text \<open>
  For the empty string, which is a string and the identifier of no group here,
  \<open>insertBlockAt\<close> takes the root branch and puts the block back: nothing is lost.
\<close>

theorem drop_with_empty_parent_counterexample:
  "findBlock (ws_blocks (sheet [TextBlock [1] []])) [1] = Some (TextBlock [1] [])
   \<and> [] \<notin> set (groupIds (ws_blocks (sheet [TextBlock [1] []])))
   \<and> handleDragDrop (onBadgeDragStart (TextBlock [1] []) 0 None) None (Some []) (Some 0) []
        (sheet [TextBlock [1] []])
       = sheet [TextBlock [1] []]"
  by (simp add: handleDragDrop_def movingBlockOf_def onBadgeDragStart_def sheet_def
      removeBlockRecursive_Cons finalIndexOf_def insertBlockAt_falsy splice_insert_def
      splice_start_def safeIndex_def)

section \<open>Index correction on a move within one list\<close>

lemma findIndex_distinct:
  "distinct (map f xs) \<Longrightarrow> i < length xs \<Longrightarrow> findIndex (\<lambda>x. f x = f (xs ! i)) xs = int i"
proof (induction xs arbitrary: i)
  case Nil
  then show ?case by simp
next
  case (Cons a xs)
  show ?case
  proof (cases i)
    case 0
    then show ?thesis by simp
  next
    case (Suc j)
    with Cons.prems have j: "j < length xs" and d: "distinct (map f xs)" and "f a \<notin> f ` set xs" by auto
    then have "f a \<noteq> f (xs ! j)" by (metis imageI nth_mem)
    with Cons.IH [OF d j] Suc show ?thesis by (simp add: Let_def)
  qed
qed

lemma splice_remove_at: "i < length xs \<Longrightarrow> splice_remove xs (int i) = take i xs @ drop (Suc i) xs"
  by (simp add: splice_remove_def splice_start_def min_def)

lemma splice_insert_at: "k \<le> length xs \<Longrightarrow> splice_insert xs (int k) x = take k xs @ x # drop k xs"
  by (simp add: splice_insert_def splice_start_def min_def)

lemma move_later:
  assumes "i < t" "t \<le> length xs"
  shows "splice_insert (take i xs @ drop (Suc i) xs) (int t - 1) x
         = take i xs @ drop (Suc i) (take t xs) @ x # drop t xs"
proof -
  let ?ys = "take i xs @ drop (Suc i) xs"
  from assms have k: "int t - 1 = int (t - 1)" "t - 1 \<le> length ?ys" by auto
  from assms have m: "min (t - Suc 0) i = i" "min i (t - Suc 0) = i" "min (length xs) i = i" "min i (length xs) = i"
    "t - Suc 0 - i = t - Suc i" "Suc i + (t - Suc i) = t" "Suc (i + (t - Suc i)) = t" by simp_all
  have 1: "take (t - 1) ?ys = take i xs @ drop (Suc i) (take t xs)"
    by (simp add: m drop_take)
  from assms have "drop (t - Suc 0) (take i xs) = []" "Suc (t - Suc i + i) = t" by simp_all
  then have 2: "drop (t - 1) ?ys = drop t xs"
    by (simp add: m)
  show ?thesis
    unfolding k(1) splice_insert_at [OF k(2)] 1 2 by simp
qed

text \<open>
  The older \<open>handleDragDrop\<close> of index.tsx does correct the index. Moving the block at
  index \<open>i\<close> of the root list to a later target index \<open>t\<close> puts it immediately
  before the block that stood at \<open>t\<close>: everything before \<open>t\<close> but the block itself,
  then the block, then everything from \<open>t\<close> on. The same holds inside the children of
  a root group.
\<close>

lemma index_handleDragDrop_root_later:
  assumes "distinct (map block_id (ws_blocks prev))"
    and "i < t" and "t \<le> length (ws_blocks prev)"
    and "item_type item = DragBlock" and "item_parentId item = None"
    and "item_id item = Some (block_id (ws_blocks prev ! i))"
  shows "index_handleDragDrop item None None (Some (int t)) created prev
         = Inr (prev\<lparr>ws_blocks := take i (ws_blocks prev) @ drop (Suc i) (take t (ws_blocks prev))
                                   @ (ws_blocks prev ! i) # drop t (ws_blocks prev)\<rparr>)"
proof -
  let ?xs = "ws_blocks prev"
  from assms have i: "i < length ?xs" by simp
  have f: "findIndex (\<lambda>b. Some (block_id b) = item_id item) ?xs = int i"
    using findIndex_distinct [OF assms(1) i] assms(6) by simp
  have t: "index_takeOut item created ?xs = Inr (Some (?xs ! i, int i, take i ?xs @ drop (Suc i) ?xs))"
    using assms(4,5) f i by (simp add: index_takeOut_def splice_remove_at)
  have n: "index_insertIdx item True None (Some (int t)) (int i) (take i ?xs @ drop (Suc i) ?xs) = int t - 1"
    using assms(2,4) by (simp add: index_insertIdx_def)
  show ?thesis
    using assms(2,3,5) by (simp add: index_handleDragDrop_def t n move_later)
qed


lemma findIndex_id:
  "distinct (map block_id xs) \<Longrightarrow> p < length xs \<Longrightarrow>
   findIndex (\<lambda>b. Some (block_id b) = Some (block_id (xs ! p))) xs = int p"
  using findIndex_distinct [of block_id xs p] by simp

lemma index_handleDragDrop_group_later:
  assumes "distinct (map block_id (ws_blocks prev))"
    and "p < length (ws_blocks prev)" and "ws_blocks prev ! p = GroupBlock pid ttl ch"
    and "pid \<noteq> []" and "distinct (map block_id ch)"
    and "i < t" and "t \<le> length ch"
    and "item_type item = DragBlock" and "item_parentId item = Some pid"
    and "item_id item = Some (block_id (ch ! i))"
  shows "index_handleDragDrop item None (Some pid) (Some (int t)) created prev
         = Inr (prev\<lparr>ws_blocks := (ws_blocks prev)
                  [p := GroupBlock pid ttl (take i ch @ drop (Suc i) (take t ch) @ (ch ! i) # drop t ch)]\<rparr>)"
proof -
  let ?xs = "ws_blocks prev"
  let ?ch' = "take i ch @ drop (Suc i) ch"
  let ?ys = "?xs[p := GroupBlock pid ttl ?ch']"
  from assms have i: "i < length ch" by simp
  have fp: "findIndex (\<lambda>b. Some (block_id b) = Some pid) ?xs = int p"
    using findIndex_id [OF assms(1,2)] assms(3) by simp
  have fi: "findIndex (\<lambda>b. Some (block_id b) = item_id item) ch = int i"
    using findIndex_id [OF assms(5) i] assms(10) by simp
  have t: "index_takeOut item created ?xs = Inr (Some (ch ! i, int i, ?ys))"
    using assms(3,4,8,9) fp fi i by (simp add: index_takeOut_def splice_remove_at)
  have ids: "map block_id ?ys = map block_id ?xs"
    using assms(2,3) by (simp add: map_update) (metis block_id.simps(5) list_update_id map_update)
  from assms(1,2) have "distinct (map block_id ?ys)" "p < length ?ys" by (simp_all add: ids)
  from findIndex_id [OF this] assms(2)
  have fp': "findIndex (\<lambda>b. block_id b = pid) ?ys = int p" by simp
  have n: "index_insertIdx item True None (Some (int t)) (int i) ?ch' = int t - 1"
    using assms(6,8) by (simp add: index_insertIdx_def)
  show ?thesis
    using assms(2,4,6,7,9) by (simp add: index_handleDragDrop_def t n fp' move_later)
qed

text \<open>
  The handler of QuestionBoard.tsx on the same move, for a target index \<open>t\<close> inside the
  list: the block is put behind the block that stood at \<open>t\<close>, one position further than
  the target.
\<close>

lemma findBlock_unique:
  "distinct (allIds t) \<Longrightarrow> b \<in> set (allBlocks t) \<Longrightarrow> findBlock t (block_id b) = Some b"
proof -
  assume d: "distinct (allIds t)" and b: "b \<in> set (allBlocks t)"
  then have "block_id b \<in> set (allIds t)" by (auto simp: allIds_def)
  then obtain c where c: "findBlock t (block_id b) = Some c"
    using findBlock_None_iff [of t "block_id b"] by (cases "findBlock t (block_id b)") auto
  from findBlock_Some [OF c] unique_block [OF d _ b] have "c = b" by simp
  with c show ?thesis by simp
qed

lemma removeBlockRecursive_at:
  "distinct (allIds xs) \<Longrightarrow> i < length xs \<Longrightarrow>
   removeBlockRecursive xs (block_id (xs ! i)) = take i xs @ drop (Suc i) xs"
proof (induction xs arbitrary: i)
  case Nil
  then show ?case by simp
next
  case (Cons x xs)
  show ?case
  proof (cases i)
    case 0
    from Cons.prems(1) have "block_id x \<notin> set (allIds xs)" by simp
    then have "removeBlockRecursive xs (block_id x) = xs" by (rule removeBlockRecursive_absent)
    with 0 show ?thesis by (simp add: removeBlockRecursive_Cons)
  next
    case (Suc j)
    with Cons.prems(2) have j: "j < length xs" by simp
    then have "block_id (xs ! j) \<in> set (allIds xs)" by (simp add: top_ids)
    with Cons.prems(1) have ne: "block_id x \<noteq> block_id (xs ! j)"
      and ch: "block_id (xs ! j) \<notin> set (allIds (childrenOf x))" by auto
    from ch have "removeBlockRecursive (childrenOf x) (block_id (xs ! j)) = childrenOf x"
      by (rule removeBlockRecursive_absent)
    moreover from Cons.prems(1) have "distinct (allIds xs)" by simp
    note Cons.IH [OF this j]
    ultimately show ?thesis using Suc ne
      by (cases x) (simp_all add: removeBlockRecursive_Cons)
  qed
qed

lemma handleDragDrop_root_later:
  assumes "distinct (allIds (ws_blocks prev))"
    and "i < t" and "t < length (ws_blocks prev)"
    and "item_type item = DragBlock"
    and "item_id item = Some (block_id (ws_blocks prev ! i))"
  shows "ws_blocks (handleDragDrop item None None (Some (int t)) newId prev)
         = take i (ws_blocks prev) @ drop (Suc i) (take (Suc t) (ws_blocks prev))
             @ (ws_blocks prev ! i) # drop (Suc t) (ws_blocks prev)"
proof -
  let ?xs = "ws_blocks prev"
  let ?cur = "take i ?xs @ drop (Suc i) ?xs"
  from assms have i: "i < length ?xs" by simp
  then have "?xs ! i \<in> set (allBlocks ?xs)" by (simp add: top_in_allBlocks)
  from findBlock_unique [OF assms(1) this]
  have m: "movingBlockOf item newId ?xs = Some (?xs ! i, ?cur)"
    using assms(4,5) by (simp add: movingBlockOf_def removeBlockRecursive_at [OF assms(1) i])
  from assms(2,3) have "safeIndex (int t) ?cur = int (Suc t) - 1"
    by (simp add: safeIndex_def min_def)
  moreover from assms(2,3) have "i < Suc t" "Suc t \<le> length ?xs" by simp_all
  note move_later [OF this, of "?xs ! i"]
  ultimately show ?thesis
    by (simp add: handleDragDrop_def m finalIndexOf_def insertBlockAt_falsy)
qed

text \<open>
  Claim C7. The \<open>handleDragDrop\<close> of QuestionBoard.tsx removes the block first and then
  inserts at the target index as it was given, with no correction for the removal. In the
  root list \<open>[1, 2, 3]\<close>, dropping block 1 on the lower half of block 2 (target index
  2, the gap between 2 and 3) yields \<open>[2, 3, 1]\<close>: the block lands behind block 3. The
  copy in index.tsx, which decrements the index, yields \<open>[2, 1, 3]\<close> on the same input.
  The example is an instance of \<open>handleDragDrop_root_later\<close> and of
  \<open>index_handleDragDrop_root_later\<close>, which describe both handlers on every such move.
\<close>

theorem handleDragDrop_no_index_correction:
  "ws_blocks (handleDragDrop
      \<lparr>item_id = Some [1], item_index = Some 0, item_parentId = None, item_type = DragBlock, payload = None\<rparr>
      None None (Some 2) []
      (sheet [TextBlock [1] [], TextBlock [2] [], TextBlock [3] []]))
     = [TextBlock [2] [], TextBlock [3] [], TextBlock [1] []]
   \<and> index_handleDragDrop
      \<lparr>item_id = Some [1], item_index = Some 0, item_parentId = None, item_type = DragBlock, payload = None\<rparr>
      None None (Some 2) (DividerBlock [])
      (sheet [TextBlock [1] [], TextBlock [2] [], TextBlock [3] []])
     = Inr (sheet [TextBlock [2] [], TextBlock [1] [], TextBlock [3] []])"
  by code_simp

section \<open>Nesting depth of groups\<close>

text \<open>
  Claim C9. Neither \<open>handleDragDrop\<close> nor \<open>onDrop\<close> looks at the depth of the
  destination together with the type of the dragged block; only the drop zone of a group
  does (\<open>canDropInGroup\<close>), and that zone is drawn for groups at depth 0 alone. In the
  document \<open>nestedDocument\<close>, which the editor reaches by drops its zones accept, the text
  block 2 lies in group 1 inside group 0. Dropping the root group 3 on the lower edge of
  that text block makes \<open>onDrop\<close> pass the parent 1 and the index 1, and
  \<open>handleDragDrop\<close> inserts the group there: group 3 ends at depth 2.
\<close>

theorem group_dropped_at_depth_2:
  "canDropInGroup (Some TText) 0 \<and> canDropInGroup (Some TGroup) 0
   \<and> reachable nestedDocument
   \<and> ws_blocks nestedDocument
       = [GroupBlock [0] (Some (js ''New Group''))
            [GroupBlock [1] (Some (js ''New Group'')) [createBlock [2] TText None]],
          GroupBlock [3] (Some (js ''New Group'')) []]
   \<and> onDrop (createBlock [2] TText None) 0 (Some [1]) 2 False True False = (Some [1], 1)
   \<and> ws_blocks (handleDragDrop (onBadgeDragStart (GroupBlock [3] (Some (js ''New Group'')) []) 1 None)
         None (Some [1]) (Some 1) [] nestedDocument)
       = [GroupBlock [0] (Some (js ''New Group''))
            [GroupBlock [1] (Some (js ''New Group''))
               [createBlock [2] TText None, GroupBlock [3] (Some (js ''New Group'')) []]]]
   \<and> depthIn 0 (ws_blocks (handleDragDrop (onBadgeDragStart (GroupBlock [3] (Some (js ''New Group'')) []) 1 None)
         None (Some [1]) (Some 1) [] nestedDocument)) [3] = Some 2"
proof -
  have t: "createBlock [2] TText None = TextBlock [2] (js ''### Instructions'' @ [10, 10] @ js ''Enter your text instructions here...'')"
    by (simp add: createBlock_def)
  have r: "reachable nestedDocument"
    unfolding nestedDocument_def by (intro reachable.drop reachable.add reachable.initial)
  have b: "ws_blocks nestedDocument
       = [GroupBlock [0] (Some (js ''New Group''))
            [GroupBlock [1] (Some (js ''New Group'')) [createBlock [2] TText None]],
          GroupBlock [3] (Some (js ''New Group'')) []]"
    unfolding t
    by (simp add: nestedDocument_def handleDragDrop_def movingBlockOf_def onBadgeDragStart_def addBlock_def
        initialData_def finalIndexOf_def insertBlockAt_Cons removeBlockRecursive_Cons
        splice_insert_def splice_start_def safeIndex_def createBlock_group t)
  have h: "ws_blocks (handleDragDrop (onBadgeDragStart (GroupBlock [3] (Some (js ''New Group'')) []) 1 None)
         None (Some [1]) (Some 1) [] nestedDocument)
       = [GroupBlock [0] (Some (js ''New Group''))
            [GroupBlock [1] (Some (js ''New Group''))
               [createBlock [2] TText None, GroupBlock [3] (Some (js ''New Group'')) []]]]"
    unfolding t
    by (simp add: handleDragDrop_def movingBlockOf_def onBadgeDragStart_def b t
        finalIndexOf_def insertBlockAt_Cons removeBlockRecursive_Cons
        splice_insert_def splice_start_def safeIndex_def)
  show ?thesis
    unfolding h b
    by (simp add: r canDropInGroup_def onDrop_def t)
qed

section \<open>Base64: proofs\<close>

lemma b64value_b64char: "v < 64 \<Longrightarrow> b64value (b64char v) = Some v"
  by (auto simp: b64value_def b64char_def)

lemma b64char_props: "v < 64 \<Longrightarrow> b64char v \<noteq> 61 \<and> b64char v \<noteq> 35 \<and> \<not> isAsciiWhitespace (b64char v)"
  by (auto simp: b64char_def isAsciiWhitespace_def)

lemma b64encode_split: "b64encode s = map b64char (b64values s) @ b64padding s"
  by (induction s rule: b64encode.induct) simp_all

lemma b64values_lt: "list_all (\<lambda>c. c < 256) s \<Longrightarrow> list_all (\<lambda>v. v < 64) (b64values s)"
  by (induction s rule: b64values.induct) (auto simp: less_mult_imp_div_less)

lemma div_mult_add: "(y::nat) < k \<Longrightarrow> (x * k + y) div k = x"
  by simp

lemma mod_mult_add: "(y::nat) < k \<Longrightarrow> (x * k + y) mod k = y"
  by simp

lemma b64_bytes:
  fixes a b c :: nat
  assumes "b < 256" and "c < 256"
  shows "a div 4 * 4 + (a mod 4 * 16 + b div 16) div 16 = a"
    and "(a mod 4 * 16 + b div 16) mod 16 * 16 + (b mod 16 * 4 + c div 64) div 4 = b"
    and "(b mod 16 * 4 + c div 64) mod 4 * 64 + c mod 64 = c"
    and "(a mod 4 * 16 + b div 16) mod 16 * 16 + (b mod 16 * 4) div 4 = b"
proof -
  from assms have b: "b div 16 < 16" and c: "c div 64 < 4" by simp_all
  have 1: "(a mod 4 * 16 + b div 16) div 16 = a mod 4" by (rule div_mult_add [OF b])
  have 2: "(a mod 4 * 16 + b div 16) mod 16 = b div 16" by (rule mod_mult_add [OF b])
  have 3: "(b mod 16 * 4 + c div 64) div 4 = b mod 16" by (rule div_mult_add [OF c])
  have 4: "(b mod 16 * 4 + c div 64) mod 4 = c div 64" by (rule mod_mult_add [OF c])
  have 5: "(b mod 16 * 4) div 4 = b mod 16" by simp
  show "a div 4 * 4 + (a mod 4 * 16 + b div 16) div 16 = a" unfolding 1 by simp
  show "(a mod 4 * 16 + b div 16) mod 16 * 16 + (b mod 16 * 4 + c div 64) div 4 = b" unfolding 2 3 by simp
  show "(b mod 16 * 4 + c div 64) mod 4 * 64 + c mod 64 = c" unfolding 4 by simp
  show "(a mod 4 * 16 + b div 16) mod 16 * 16 + (b mod 16 * 4) div 4 = b" unfolding 2 5 by simp
qed

lemma b64decode_b64values: "list_all (\<lambda>c. c < 256) s \<Longrightarrow> b64decode (b64values s) = s"
proof (induction s rule: b64values.induct)
  case (1 a b c rest)
  then have bc: "b < 256" "c < 256" by simp_all
  note e = b64_bytes(1) [OF bc, where a = a] b64_bytes(2) [OF bc, where a = a] b64_bytes(3) [OF bc]
  from 1 have "b64decode (b64values rest) = rest" by simp
  then show ?case by (simp only: b64values.simps b64decode.simps append.simps e)
next
  case (2 a b)
  then have b: "b < 256" by simp
  note e = b64_bytes(1) [OF b b, where a = a] b64_bytes(4) [OF b b, where a = a]
  show ?case by (simp only: b64values.simps b64decode.simps e)
next
  case (3 a)
  have "a div 4 * 4 + a mod 4 * 16 div 16 = a" by simp
  then show ?case by (simp only: b64values.simps b64decode.simps)
next
  case 4
  show ?case by simp
qed

lemma length_b64: "length (b64values s) mod 4 \<noteq> 1 \<and> length (b64encode s) mod 4 = 0"
  by (induction s rule: b64values.induct) simp_all

lemma those_map_Some: "list_all (\<lambda>v. f (g v) = Some v) vs \<Longrightarrow> those (map f (map g vs)) = Some vs"
  by (induction vs) simp_all

lemma b64_no_whitespace:
  "list_all (\<lambda>v. v < 64) vs \<Longrightarrow> filter (\<lambda>c. \<not> isAsciiWhitespace c) (map b64char vs) = map b64char vs"
  by (induction vs) (simp_all add: b64char_props)

lemma b64padding_cases: "b64padding s = [] \<or> b64padding s = [61] \<or> b64padding s = [61, 61]"
  by (induction s rule: b64padding.induct) simp_all

lemma stripPadding_b64:
  assumes "list_all (\<lambda>v. v < 64) vs" and "p = [] \<or> p = [61] \<or> p = [61, 61]"
  shows "stripPadding (map b64char vs @ p) = map b64char vs"
proof -
  let ?r = "rev (map b64char vs)"
  have "list_all (\<lambda>c. c \<noteq> 61) (map b64char vs)"
    using assms(1) by (induction vs) (simp_all add: b64char_props)
  then have "list_all (\<lambda>c. c \<noteq> 61) ?r" by (simp add: list_all_iff)
  then have r: "?r = [] \<or> (\<exists>y ys. ?r = y # ys \<and> y \<noteq> 61)" by (cases ?r) simp_all
  have x: "rev ?r = map b64char vs" by simp
  from assms(2) consider "p = []" | "p = [61]" | "p = [61, 61]" by blast
  then show ?thesis
  proof cases
    case 1
    with r x show ?thesis by (auto simp: stripPadding_def Let_def simp del: rev_map rev_rev_ident)
  next
    case 2
    with r x show ?thesis by (auto simp: stripPadding_def Let_def simp del: rev_map rev_rev_ident)
  next
    case 3
    with r x show ?thesis by (auto simp: stripPadding_def Let_def simp del: rev_map rev_rev_ident)
  qed
qed

lemma atob_btoa: "list_all (\<lambda>c. c < 256) s \<Longrightarrow> atob (b64encode s) = Some s"
proof -
  assume s: "list_all (\<lambda>c. c < 256) s"
  let ?vs = "b64values s"
  from b64values_lt [OF s] have lt: "list_all (\<lambda>v. v < 64) ?vs" .
  have nows: "filter (\<lambda>c. \<not> isAsciiWhitespace c) (b64padding s) = b64padding s"
    using b64padding_cases [of s] by (auto simp: isAsciiWhitespace_def)
  have f: "filter (\<lambda>c. \<not> isAsciiWhitespace c) (b64encode s) = b64encode s"
    by (simp only: b64encode_split filter_append b64_no_whitespace [OF lt] nows)
  have sp: "stripPadding (b64encode s) = map b64char ?vs"
    unfolding b64encode_split using stripPadding_b64 [OF lt b64padding_cases] .
  have th: "those (map b64value (map b64char ?vs)) = Some ?vs"
    using lt by (intro those_map_Some) (simp add: list_all_iff b64value_b64char)
  from length_b64 [of s] have l: "length ?vs mod 4 \<noteq> Suc 0" "length (b64encode s) mod 4 = 0" by simp_all
  show ?thesis
    by (simp add: atob_def f sp l th Let_def b64decode_b64values [OF s] del: map_map)
qed

section \<open>JSON: proofs\<close>

lemma latin1_simps [simp]:
  "latin1 []" "latin1 (c # cs) \<longleftrightarrow> c < 256 \<and> latin1 cs" "latin1 (xs @ ys) \<longleftrightarrow> latin1 xs \<and> latin1 ys"
  by (simp_all add: latin1_def)

lemma hexValue_hexDigit: "d < 16 \<Longrightarrow> hexValue (hexDigit d) = Some d"
  by (auto simp: hexValue_def hexDigit_def)

lemma hex4_control: "c < 32 \<Longrightarrow>
  hex4 (hexDigit (c div 4096 mod 16)) (hexDigit (c div 256 mod 16)) (hexDigit (c div 16 mod 16)) (hexDigit (c mod 16)) = Some c"
proof -
  assume c: "c < 32"
  then have z: "c div 4096 mod 16 = 0" "c div 256 mod 16 = 0" "c div 16 mod 16 = c div 16" by simp_all
  have "c div 16 * 16 + c mod 16 = c" by simp
  with c show ?thesis
    by (simp add: hex4_def z hexValue_hexDigit)
qed

lemma not_surrogate: "c < 256 \<Longrightarrow> \<not> isLeadSurrogate c \<and> \<not> isTrailSurrogate c"
  by (simp add: isLeadSurrogate_def isTrailSurrogate_def)

lemma parseChars_escapeChar:
  "c < 256 \<Longrightarrow> parseChars (escapeChar c @ t) = consChar c (parseChars t)"
proof (cases "c < 32")
  case True
  assume "c < 256"
  consider "c = 8" | "c = 9" | "c = 10" | "c = 12" | "c = 13" | "c \<notin> {8, 9, 10, 12, 13}" by blast
  then show ?thesis
  proof cases
    case 6
    with True have e: "escapeChar c = unicodeEscape c" by (auto simp: escapeChar_def)
    show ?thesis unfolding e unicodeEscape_def
      by (simp add: hex4_control [OF True])
  qed (simp_all add: escapeChar_def unescape_def)
next
  case False
  assume "c < 256"
  consider "c = 34" | "c = 92" | "c \<noteq> 34" "c \<noteq> 92" by blast
  then show ?thesis
  proof cases
    case 3
    with False show ?thesis by (simp add: escapeChar_def)
  qed (simp_all add: escapeChar_def unescape_def)
qed

lemma parseChars_quoteChars:
  "latin1 s \<Longrightarrow> parseChars (quoteChars s @ 34 # rest) = Some (s, rest)"
proof (induction s)
  case Nil
  show ?case by simp
next
  case (Cons c cs)
  then have c: "c < 256" and cs: "latin1 cs" by simp_all
  have "quoteChars (c # cs) = escapeChar c @ quoteChars cs"
    using not_surrogate [OF c] by simp
  then have "parseChars (quoteChars (c # cs) @ 34 # rest) = consChar c (parseChars (quoteChars cs @ 34 # rest))"
    using parseChars_escapeChar [OF c, of "quoteChars cs @ 34 # rest"] by simp
  with Cons.IH [OF cs] show ?case by (simp add: consChar_def)
qed

lemma latin1_escapeChar: "c < 256 \<Longrightarrow> latin1 (escapeChar c)"
  by (auto simp: escapeChar_def unicodeEscape_def hexDigit_def)

lemma latin1_quoteChars: "latin1 s \<Longrightarrow> latin1 (quoteChars s)"
proof (induction s)
  case Nil
  show ?case by simp
next
  case (Cons c cs)
  then have c: "c < 256" and cs: "latin1 cs" by simp_all
  have "quoteChars (c # cs) = escapeChar c @ quoteChars cs"
    using not_surrogate [OF c] by simp
  with latin1_escapeChar [OF c] Cons.IH [OF cs] show ?case by simp
qed

lemma skipWs_Cons: "\<not> isJsonWs c \<Longrightarrow> skipWs (c # cs) = c # cs"
  by (simp add: skipWs_def)

lemma isJsonWs_simps [simp]:
  "\<not> isJsonWs 34" "\<not> isJsonWs 44" "\<not> isJsonWs 58" "\<not> isJsonWs 91" "\<not> isJsonWs 93"
  "\<not> isJsonWs 123" "\<not> isJsonWs 125" "\<not> isJsonWs 110" "\<not> isJsonWs 116" "\<not> isJsonWs 102"
  by (simp_all add: isJsonWs_def)

lemma js_literals:
  "js ''null'' = [110, 117, 108, 108]" "js ''true'' = [116, 114, 117, 101]"
  "js ''false'' = [102, 97, 108, 115, 101]"
  by (simp_all add: js_def)

text \<open>The first character of the text of a plain value.\<close>

lemma stringify_head:
  "plain v \<Longrightarrow> \<exists>c t. JSON_stringify v = c # t \<and> c \<in> {34, 91, 123, 110, 116, 102}"
  by (cases v) (auto simp: js_literals quoteJSONString_def)

lemma quote_head: "quoteJSONString k @ t = 34 # quoteChars k @ 34 # t"
  by (simp add: quoteJSONString_def)

lemma parseValue_string:
  "latin1 s \<Longrightarrow> parseValue (Suc n) (quoteJSONString s @ rest) = Some (JString s, rest)"
  by (simp add: quote_head skipWs_Cons parseChars_quoteChars)

lemma parseValue_literals:
  "parseValue (Suc n) (js ''null'' @ rest) = Some (JNull, rest)"
  "parseValue (Suc n) (js ''true'' @ rest) = Some (JBool True, rest)"
  "parseValue (Suc n) (js ''false'' @ rest) = Some (JBool False, rest)"
  by (simp_all add: js_literals skipWs_Cons literalAt_def)

lemma parseValue_empty:
  "parseValue (Suc n) (91 # 93 # rest) = Some (JArray [], rest)"
  "parseValue (Suc n) (123 # 125 # rest) = Some (JObject [], rest)"
  by (simp_all add: skipWs_Cons)

lemma parseValue_array:
  assumes "skipWs t = c # t'" and "c \<noteq> 93"
  shows "parseValue (Suc n) (91 # t) =
           (case parseElements n t of None \<Rightarrow> None | Some (vs, rest) \<Rightarrow> Some (JArray vs, rest))"
  using assms by (simp add: skipWs_Cons)

lemma parseValue_object:
  assumes "skipWs t = c # t'" and "c \<noteq> 125"
  shows "parseValue (Suc n) (123 # t) =
           (case parseMembers n t of
              None \<Rightarrow> None
            | Some (kvs, rest) \<Rightarrow> Some (JObject (foldl (\<lambda>obj (k, v). defineProperty k v obj) [] kvs), rest))"
  using assms by (simp add: skipWs_Cons)

lemma parseElements_step:
  assumes "parseValue n (x @ c # t) = Some (v, c # t)" and "\<not> isJsonWs c"
  shows "parseElements (Suc n) (x @ c # t) =
           (if c = 44 then (case parseElements n t of None \<Rightarrow> None | Some (vs, r) \<Rightarrow> Some (v # vs, r))
            else if c = 93 then Some ([v], t) else None)"
  using assms by (simp add: skipWs_Cons)

lemma parseMembers_step:
  assumes "latin1 k" and "parseValue n (x @ c # t) = Some (v, c # t)" and "\<not> isJsonWs c"
  shows "parseMembers (Suc n) (quoteJSONString k @ 58 # x @ c # t) =
           (if c = 44 then (case parseMembers n t of None \<Rightarrow> None | Some (kvs, r) \<Rightarrow> Some ((k, v) # kvs, r))
            else if c = 125 then Some ([(k, v)], t) else None)"
  using assms by (simp add: quote_head skipWs_Cons parseChars_quoteChars)

declare parseValue.simps [simp del] parseElements.simps [simp del] parseMembers.simps [simp del]

lemma defineProperty_new: "k \<notin> fst ` set obj \<Longrightarrow> defineProperty k v obj = obj @ [(k, v)]"
  by (induction obj) auto

lemma foldl_defineProperty:
  "distinct (map fst (obj @ kvs)) \<Longrightarrow> foldl (\<lambda>obj (k, v). defineProperty k v obj) obj kvs = obj @ kvs"
proof (induction kvs arbitrary: obj)
  case Nil
  show ?case by simp
next
  case (Cons kv kvs)
  obtain k v where kv: "kv = (k, v)" by force
  from Cons.prems kv have "k \<notin> fst ` set obj" by auto
  then have d: "defineProperty k v obj = obj @ [(k, v)]" by (rule defineProperty_new)
  from Cons.prems kv have "distinct (map fst ((obj @ [(k, v)]) @ kvs))" by simp
  from Cons.IH [OF this] d kv show ?case by simp
qed

lemma stringify_object: "JSON_stringify (JObject kvs) = [123] @ commaSep (map memberText kvs) @ [125]"
proof -
  have "(\<lambda>(k, v). quoteJSONString k @ [58] @ JSON_stringify v) = memberText"
    by (auto simp: memberText_def fun_eq_iff)
  then show ?thesis by simp
qed

declare JSON_stringify.simps(6) [simp del]

text \<open>
  Parsing the elements of an array and the members of an object, given that every element
  parses back with the fuel at hand.
\<close>

lemma parseElements_commaSep:
  assumes "vs \<noteq> []"
    and "\<And>v m t. v \<in> set vs \<Longrightarrow> 2 * length (JSON_stringify v) + 1 \<le> m
            \<Longrightarrow> parseValue m (JSON_stringify v @ t) = Some (v, t)"
    and "2 * length (commaSep (map JSON_stringify vs)) + 2 \<le> n"
  shows "parseElements n (commaSep (map JSON_stringify vs) @ 93 # rest) = Some (vs, rest)"
  using assms
proof (induction vs arbitrary: n)
  case Nil
  then show ?case by simp
next
  case (Cons v vs)
  note IH = Cons.IH and pr = Cons.prems
  from pr(3) obtain m where n: "n = Suc m" by (cases n) auto
  show ?case
  proof (cases vs)
    case Nil
    with pr(3) n have "2 * length (JSON_stringify v) + 1 \<le> m" by simp
    from pr(2) [OF _ this, of "93 # rest"]
    have "parseValue m (JSON_stringify v @ 93 # rest) = Some (v, 93 # rest)" by simp
    from parseElements_step [OF this] Nil n show ?thesis by simp
  next
    case (Cons w ws)
    let ?tail = "commaSep (map JSON_stringify vs)"
    from Cons have tx: "commaSep (map JSON_stringify (v # vs)) = JSON_stringify v @ 44 # ?tail" by simp
    from pr(3) n have m: "2 * length (JSON_stringify v) + 1 \<le> m" "2 * length ?tail + 2 \<le> m"
      unfolding tx by simp_all
    from pr(2) [OF _ m(1), of "44 # ?tail @ 93 # rest"]
    have "parseValue m (JSON_stringify v @ 44 # ?tail @ 93 # rest) = Some (v, 44 # ?tail @ 93 # rest)" by simp
    from parseElements_step [OF this]
    have s: "parseElements (Suc m) (JSON_stringify v @ 44 # ?tail @ 93 # rest) =
        (case parseElements m (?tail @ 93 # rest) of None \<Rightarrow> None | Some (vs, r) \<Rightarrow> Some (v # vs, r))"
      by simp
    from Cons have "vs \<noteq> []" by simp
    then have "parseElements m (?tail @ 93 # rest) = Some (vs, rest)"
    proof (rule IH [OF _ _ m(2)])
      fix u k t assume "u \<in> set vs" "2 * length (JSON_stringify u) + 1 \<le> k"
      then show "parseValue k (JSON_stringify u @ t) = Some (u, t)"
        using pr(2) [of u k t] by simp
    qed
    with s n show ?thesis unfolding tx by simp
  qed
qed

lemma parseMembers_commaSep:
  assumes "kvs \<noteq> []"
    and "\<And>k v m t. (k, v) \<in> set kvs \<Longrightarrow> 2 * length (JSON_stringify v) + 1 \<le> m
            \<Longrightarrow> parseValue m (JSON_stringify v @ t) = Some (v, t)"
    and "\<And>k v. (k, v) \<in> set kvs \<Longrightarrow> latin1 k"
    and "2 * length (commaSep (map memberText kvs)) + 2 \<le> n"
  shows "parseMembers n (commaSep (map memberText kvs) @ 125 # rest) = Some (kvs, rest)"
  using assms
proof (induction kvs arbitrary: n)
  case Nil
  then show ?case by simp
next
  case (Cons kv kvs)
  note IH = Cons.IH and pr = Cons.prems
  obtain k v where kv: "kv = (k, v)" by force
  from pr(4) obtain m where n: "n = Suc m" by (cases n) auto
  from pr(3) [of k v] kv have k: "latin1 k" by simp
  have mt: "memberText (k, v) = quoteJSONString k @ 58 # JSON_stringify v" by (simp add: memberText_def)
  show ?case
  proof (cases kvs)
    case Nil
    with pr(4) n kv have "2 * length (JSON_stringify v) + 1 \<le> m" by (simp add: mt)
    from pr(2) [OF _ this, of k "125 # rest"] kv
    have "parseValue m (JSON_stringify v @ 125 # rest) = Some (v, 125 # rest)" by simp
    from parseMembers_step [OF k this] Nil n kv show ?thesis by (simp add: mt)
  next
    case (Cons w ws)
    let ?tail = "commaSep (map memberText kvs)"
    from Cons kv have tx: "commaSep (map memberText (kv # kvs)) = quoteJSONString k @ 58 # JSON_stringify v @ 44 # ?tail"
      by (simp add: mt)
    from pr(4) n have m: "2 * length (JSON_stringify v) + 1 \<le> m" "2 * length ?tail + 2 \<le> m"
      unfolding tx by simp_all
    from pr(2) [OF _ m(1), of k "44 # ?tail @ 125 # rest"] kv
    have "parseValue m (JSON_stringify v @ 44 # ?tail @ 125 # rest) = Some (v, 44 # ?tail @ 125 # rest)" by simp
    from parseMembers_step [OF k this]
    have s: "parseMembers (Suc m) (quoteJSONString k @ 58 # JSON_stringify v @ 44 # ?tail @ 125 # rest) =
        (case parseMembers m (?tail @ 125 # rest) of None \<Rightarrow> None | Some (kvs, r) \<Rightarrow> Some ((k, v) # kvs, r))"
      by simp
    from Cons have "kvs \<noteq> []" by simp
    then have "parseMembers m (?tail @ 125 # rest) = Some (kvs, rest)"
    proof (rule IH [OF _ _ _ m(2)])
      fix j u i t assume "(j, u) \<in> set kvs" "2 * length (JSON_stringify u) + 1 \<le> i"
      then show "parseValue i (JSON_stringify u @ t) = Some (u, t)"
        using pr(2) [of j u i t] by simp
    next
      fix j u assume "(j, u) \<in> set kvs"
      then show "latin1 j" using pr(3) [of j u] by simp
    qed
    with s n kv show ?thesis unfolding tx by simp
  qed
qed

lemma commaSep_head:
  assumes "xs \<noteq> []" and "\<And>x. x \<in> set xs \<Longrightarrow> \<exists>c t. x = c # t \<and> c \<in> H"
  shows "\<exists>c t. commaSep xs = c # t \<and> c \<in> H"
proof (cases xs)
  case Nil
  with assms(1) show ?thesis by simp
next
  case (Cons x ys)
  with assms(2) [of x] obtain c t where x: "x = c # t" "c \<in> H" by auto
  with Cons show ?thesis by (cases ys) auto
qed

lemma parseValue_stringify:
  "plain v \<Longrightarrow> latin1Value v \<Longrightarrow> 2 * length (JSON_stringify v) + 1 \<le> n
   \<Longrightarrow> parseValue n (JSON_stringify v @ rest) = Some (v, rest)"
proof (induction v arbitrary: n rest)
  case JNull
  then obtain m where "n = Suc m" by (cases n) auto
  then show ?case by (simp add: parseValue_literals)
next
  case (JBool b)
  then obtain m where "n = Suc m" by (cases n) auto
  then show ?case by (simp add: parseValue_literals)
next
  case (JNumber t)
  then show ?case by simp
next
  case (JString s)
  then obtain m where "n = Suc m" by (cases n) auto
  with JString.prems(2) show ?case by (simp add: parseValue_string)
next
  case (JArray vs)
  from JArray.prems(3) obtain m where n: "n = Suc m" by (cases n) auto
  show ?case
  proof (cases "vs = []")
    case True
    with n show ?thesis by (simp add: parseValue_empty)
  next
    case False
    let ?els = "commaSep (map JSON_stringify vs)"
    have "\<exists>c t. ?els = c # t \<and> c \<in> {34, 91, 123, 110, 116, 102}"
    proof (rule commaSep_head)
      show "map JSON_stringify vs \<noteq> []" using False by simp
      fix x assume "x \<in> set (map JSON_stringify vs)"
      then obtain v where "v \<in> set vs" "x = JSON_stringify v" by auto
      with JArray.prems(1) stringify_head [of v] show "\<exists>c t. x = c # t \<and> c \<in> {34, 91, 123, 110, 116, 102}"
        by (auto simp: list_all_iff)
    qed
    then obtain c t where ct: "?els = c # t" "c \<in> {34, 91, 123, 110, 116, 102}" by blast
    then have "\<not> isJsonWs c" "c \<noteq> 93" by (auto simp: isJsonWs_def)
    then have sk: "skipWs (?els @ 93 # rest) = c # t @ 93 # rest" by (simp add: ct skipWs_Cons)
    from JArray.prems(3) n have m: "2 * length ?els + 2 \<le> m" by simp
    have "parseElements m (?els @ 93 # rest) = Some (vs, rest)"
    proof (rule parseElements_commaSep [OF False _ m])
      fix v k t assume v: "v \<in> set vs" "2 * length (JSON_stringify v) + 1 \<le> k"
      with JArray.prems(1,2) have "plain v" "latin1Value v" by (simp_all add: list_all_iff)
      from JArray.IH [OF v(1) this v(2)] show "parseValue k (JSON_stringify v @ t) = Some (v, t)" .
    qed
    with parseValue_array [OF sk \<open>c \<noteq> 93\<close>, of m] n show ?thesis by simp
  qed
next
  case (JObject kvs)
  from JObject.prems(3) obtain m where n: "n = Suc m" by (cases n) auto
  show ?case
  proof (cases "kvs = []")
    case True
    with n show ?thesis by (simp add: parseValue_empty stringify_object)
  next
    case False
    let ?els = "commaSep (map memberText kvs)"
    have "\<exists>c t. ?els = c # t \<and> c \<in> {34}"
    proof (rule commaSep_head)
      show "map memberText kvs \<noteq> []" using False by simp
      fix x assume "x \<in> set (map memberText kvs)"
      then show "\<exists>c t. x = c # t \<and> c \<in> {34}"
        by (auto simp: memberText_def quoteJSONString_def)
    qed
    then obtain t where ct: "?els = 34 # t" by auto
    have sk: "skipWs (?els @ 125 # rest) = 34 # t @ 125 # rest" by (simp add: ct skipWs_Cons)
    from JObject.prems(3) n have m: "2 * length ?els + 2 \<le> m" by (simp add: stringify_object)
    have "parseMembers m (?els @ 125 # rest) = Some (kvs, rest)"
    proof (rule parseMembers_commaSep [OF False _ _ m])
      fix k v i t assume v: "(k, v) \<in> set kvs" "2 * length (JSON_stringify v) + 1 \<le> i"
      with JObject.prems(1,2) have "plain v" "latin1Value v" by (auto simp: list_all_iff)
      moreover have "v \<in> Basic_BNFs.snds (k, v)" by simp
      ultimately show "parseValue i (JSON_stringify v @ t) = Some (v, t)"
        using JObject.IH [OF v(1) _ _ _ v(2)] by blast
    next
      fix k v assume "(k, v) \<in> set kvs"
      with JObject.prems(2) show "latin1 k" by (auto simp: list_all_iff)
    qed
    moreover from JObject.prems(1) have "foldl (\<lambda>obj (k, v). defineProperty k v obj) [] kvs = kvs"
      using foldl_defineProperty [of "[]" kvs] by simp
    ultimately show ?thesis
      using parseValue_object [OF sk, of m] n by (simp add: stringify_object)
  qed
qed

lemma JSON_parse_stringify:
  "plain v \<Longrightarrow> latin1Value v \<Longrightarrow> JSON_parse (JSON_stringify v) = Some v"
  using parseValue_stringify [of v "2 * length (JSON_stringify v) + 1" "[]"]
  by (simp add: JSON_parse_def skipWs_def)

lemma latin1_commaSep: "list_all latin1 xs \<Longrightarrow> latin1 (commaSep xs)"
  by (induction xs rule: commaSep.induct) simp_all

lemma latin1_stringify: "latin1Value v \<Longrightarrow> latin1 (JSON_stringify v)"
proof (induction v)
  case (JArray vs)
  then have "list_all latin1 (map JSON_stringify vs)" by (simp add: list_all_iff)
  then show ?case by (simp add: latin1_commaSep)
next
  case (JObject kvs)
  have "list_all latin1 (map memberText kvs)"
    unfolding list_all_iff
  proof
    fix x assume "x \<in> set (map memberText kvs)"
    then obtain k v where kv: "(k, v) \<in> set kvs" "x = memberText (k, v)" by auto
    with JObject.prems have "latin1 k" "latin1Value v" by (auto simp: list_all_iff)
    moreover have "v \<in> Basic_BNFs.snds (k, v)" by simp
    ultimately have "latin1 k" "latin1 (JSON_stringify v)" using JObject.IH [OF kv(1)] by blast+
    with kv(2) show "latin1 x" by (simp add: memberText_def quoteJSONString_def latin1_quoteChars)
  qed
  then show ?case by (simp add: stringify_object latin1_commaSep)
qed (simp_all add: js_literals quoteJSONString_def latin1_quoteChars)

section \<open>The codec\<close>

lemma replaceFirst_absent: "c \<notin> set s \<Longrightarrow> replaceFirst (c # p) rep s = s"
proof (induction s)
  case Nil
  show ?case by simp
next
  case (Cons a s)
  then show ?case by (cases "take (length p) s = p") auto
qed

lemma replaceFirst_prefix: "pat \<noteq> [] \<Longrightarrow> replaceFirst pat rep (pat @ s) = rep @ s"
  by (cases pat) simp_all

lemma b64encode_no_hash: "list_all (\<lambda>c. c < 256) s \<Longrightarrow> 35 \<notin> set (b64encode s)"
proof -
  assume "list_all (\<lambda>c. c < 256) s"
  from b64values_lt [OF this] have "35 \<notin> set (map b64char (b64values s))"
    by (auto simp: list_all_iff b64char_props)
  moreover have "35 \<notin> set (b64padding s)" using b64padding_cases [of s] by auto
  ultimately show ?thesis by (simp add: b64encode_split)
qed

lemma js_data_prefix: "js ''#data='' = 35 # js ''data=''"
  by (simp add: js_def)

lemma map_fst_optional: "map fst (optional k f x) = (case x of None \<Rightarrow> [] | Some y \<Rightarrow> [k])"
  by (simp add: optional_def split: option.splits)

lemma js_keys:
  "js ''id'' = [105, 100]" "js ''type'' = [116, 121, 112, 101]" "js ''content'' = [99, 111, 110, 116, 101, 110, 116]"
  "js ''url'' = [117, 114, 108]" "js ''title'' = [116, 105, 116, 108, 101]"
  "js ''children'' = [99, 104, 105, 108, 100, 114, 101, 110]"
  "js ''qType'' = [113, 84, 121, 112, 101]" "js ''prompt'' = [112, 114, 111, 109, 112, 116]"
  "js ''listItems'' = [108, 105, 115, 116, 73, 116, 101, 109, 115]"
  "js ''options'' = [111, 112, 116, 105, 111, 110, 115]" "js ''image'' = [105, 109, 97, 103, 101]"
  "js ''description'' = [100, 101, 115, 99, 114, 105, 112, 116, 105, 111, 110]"
  "js ''multiSelect'' = [109, 117, 108, 116, 105, 83, 101, 108, 101, 99, 116]"
  "js ''correctAnswer'' = [99, 111, 114, 114, 101, 99, 116, 65, 110, 115, 119, 101, 114]"
  "js ''blocks'' = [98, 108, 111, 99, 107, 115]" "js ''design'' = [100, 101, 115, 105, 103, 110]"
  "js ''accentColor'' = [97, 99, 99, 101, 110, 116, 67, 111, 108, 111, 114]" "js ''font'' = [102, 111, 110, 116]"
  by (simp_all add: js_def)

lemma plain_optional:
  "(\<And>y. plain (f y)) \<Longrightarrow> list_all (\<lambda>(k, v). plain v) (optional k f x)"
  by (simp add: optional_def split: option.splits)

lemma plain_leaves [simp]:
  "plain (stringsToJS xs)" "plain (nullableToJS n)" "plain (answerToJS a)"
  by (simp_all add: stringsToJS_def nullableToJS_def answerToJS_def list_all_iff
      split: nullable.splits answer.splits)

lemma plain_questionFields:
  "distinct ([105, 100] # [116, 121, 112, 101] # map fst (questionFieldsToJS q))
   \<and> list_all (\<lambda>(k, v). plain v) (questionFieldsToJS q)"
proof
  show "distinct ([105, 100] # [116, 121, 112, 101] # map fst (questionFieldsToJS q))"
    by (simp add: questionFieldsToJS_def map_fst_optional js_keys split: option.splits)
  show "list_all (\<lambda>(k, v). plain v) (questionFieldsToJS q)"
    by (simp add: questionFieldsToJS_def plain_optional)
qed

lemma plain_blockToJS: "plain (blockToJS b)"
proof (induction b)
  case (QuestionBlock i q)
  from plain_questionFields [of q] show ?case by (simp add: js_keys)
next
  case (GroupBlock i t ch)
  then have "list_all plain (map blockToJS ch)" by (simp add: list_all_iff)
  then show ?case by (simp add: js_keys map_fst_optional plain_optional split: option.splits)
qed (simp_all add: js_keys map_fst_optional plain_optional split: option.splits)

lemma plain_worksheetToJS: "plain (worksheetToJS w)"
proof -
  have "list_all plain (map blockToJS (ws_blocks w))" by (simp add: list_all_iff plain_blockToJS)
  then show ?thesis
    by (simp add: worksheetToJS_def js_keys map_fst_optional plain_optional designToJS_def
        split: option.splits)
qed

lemma codec_round_trip_value:
  assumes "plain v" and "latin1Value v"
  shows "decodeState (encodeState v) = v" and "decodeState (js ''#data='' @ encodeState v) = v"
    and "encodeState v = b64encode (JSON_stringify v)"
proof -
  from latin1_stringify [OF assms(2)] have l: "list_all (\<lambda>c. c < 256) (JSON_stringify v)"
    by (simp add: latin1_def)
  then show e: "encodeState v = b64encode (JSON_stringify v)" by (simp add: encodeState_def btoa_def)
  from b64encode_no_hash [OF l] have r1: "replaceFirst (js ''#data='') [] (b64encode (JSON_stringify v)) = b64encode (JSON_stringify v)"
    unfolding js_data_prefix by (rule replaceFirst_absent)
  have "js ''#data='' \<noteq> []" by (simp add: js_def)
  then have r2: "replaceFirst (js ''#data='') [] (js ''#data='' @ b64encode (JSON_stringify v)) = b64encode (JSON_stringify v)"
    using replaceFirst_prefix [of "js ''#data=''" "[]"] by simp
  note a = atob_btoa [OF l] and p = JSON_parse_stringify [OF assms]
  show "decodeState (encodeState v) = v"
    by (simp add: decodeState_def e r1 a p)
  show "decodeState (js ''#data='' @ encodeState v) = v"
    by (simp add: decodeState_def e r2 a p)
qed

text \<open>
  Claim C1. For every worksheet whose strings use only code units below 256,
  \<open>decodeState\<close> gives back the value \<open>encodeState\<close> was given, whether the encoded
  text comes with the prefix \<open>#data=\<close> or without it.
\<close>

theorem codec_round_trip:
  "latin1Value (worksheetToJS x) \<longrightarrow>
     decodeState (js ''#data='' @ encodeState (worksheetToJS x)) = worksheetToJS x
     \<and> decodeState (encodeState (worksheetToJS x)) = worksheetToJS x"
  using codec_round_trip_value(1,2) [OF plain_worksheetToJS, of x] by simp

theorem codec_round_trip_witness:
  "latin1Value (worksheetToJS
      (sheet [TextBlock [1] [200, 34, 10], GroupBlock (js ''g'') (Some (js ''Part 1'')) [DividerBlock [9]]]))
   \<and> decodeState (js ''#data='' @ encodeState (worksheetToJS
      (sheet [TextBlock [1] [200, 34, 10], GroupBlock (js ''g'') (Some (js ''Part 1'')) [DividerBlock [9]]])))
     = worksheetToJS
      (sheet [TextBlock [1] [200, 34, 10], GroupBlock (js ''g'') (Some (js ''Part 1'')) [DividerBlock [9]]])
   \<and> decodeState (encodeState (worksheetToJS
      (sheet [TextBlock [1] [200, 34, 10], GroupBlock (js ''g'') (Some (js ''Part 1'')) [DividerBlock [9]]])))
     = worksheetToJS
      (sheet [TextBlock [1] [200, 34, 10], GroupBlock (js ''g'') (Some (js ''Part 1'')) [DividerBlock [9]]])"
proof -
  have h: "latin1Value (worksheetToJS
      (sheet [TextBlock [1] [200, 34, 10], GroupBlock (js ''g'') (Some (js ''Part 1'')) [DividerBlock [9]]]))"
    by (simp add: worksheetToJS_def sheet_def optional_def js_def)
  with codec_round_trip [of "sheet [TextBlock [1] [200, 34, 10], GroupBlock (js ''g'') (Some (js ''Part 1'')) [DividerBlock [9]]]"]
  show ?thesis by simp
qed

text \<open>
  Claim C2. \<open>decodeState\<close> cannot throw: what \<open>atob\<close> and \<open>JSON.parse\<close> throw is
  caught, and text that is not base64 or not JSON gives \<open>null\<close>. But the parsed value
  is returned unexamined. The fragment \<open>#data=e30=\<close> holds the JSON text \<open>{}\<close>, an
  object without \<open>blocks\<close>, and \<open>decodeState\<close> returns that object;
  \<open>#data=NQ==\<close> holds \<open>5\<close> and returns a number.
\<close>

theorem decodeState_returns_json_without_blocks:
  "decodeState (js ''#data=e30='') = JObject []
   \<and> decodeState (js ''#data=NQ=='') = JNumber (js ''5'')
   \<and> decodeState (js ''#data=e3s='') = JNull
   \<and> decodeState (js ''garbage-not-base64'') = JNull"
  by code_simp

end
